theory Spec2Isabelle
  imports Complex_Main "HOL-Library.Sublist"
begin

section \<open>Strings\<close>

text \<open>
  Strings are lists of 8-bit characters. \<open>toLowerCase\<close> maps the letters \<open>A\<close> to \<open>Z\<close>
  to \<open>a\<close> to \<open>z\<close> and leaves every other character as it is: the model covers ASCII
  text, and a character outside ASCII has no case and is not a word character.
\<close>

definition lowerChar :: "char \<Rightarrow> char" where
  "lowerChar c =
     (let n = (of_char c :: nat) in if 65 \<le> n \<and> n \<le> 90 then char_of (n + 32) else c)"

definition toLowerCase :: "string \<Rightarrow> string" where
  "toLowerCase s = map lowerChar s"

section \<open>Data model of \<open>src/index.ts\<close>\<close>

record Post =
  url :: string
  title :: string
  tagName :: string
  subreddit :: string
  author :: string
  matchedKeyword :: string
  shouldRemove :: bool
  removalReason :: string

record FilterSettings =
  keywords_list :: "string list"
  subreddits :: "string list"
  enabled :: bool
  minAccountAge :: int
  accountAgeFilterEnabled :: bool

record CounterData =
  totalRemoved :: int
  dailyRemoved :: int
  lastResetDate :: string

section \<open>Keyword matching\<close>

text \<open>
  \<open>findMatchingKeyword\<close> builds, for each keyword, the pattern source
  \<open>\b\<close> + escaped lower-cased keyword + \<open>\b\<close> and tests it with the flag \<open>i\<close> against the
  lower-cased text. The replace call puts a backslash before every character of the class
  \<open>[.*+?^${}()|[\]\\]\<close>.
\<close>

definition backslash :: char where
  "backslash = CHR 0x5C"

definition escapedChars :: string where
  "escapedChars = ''.*+?^${}()|[]'' @ [backslash]"

definition escapeRegExp :: "string \<Rightarrow> string" where
  "escapeRegExp s = concat (map (\<lambda>c. if c \<in> set escapedChars then [backslash, c] else [c]) s)"

definition patternSource :: "string \<Rightarrow> string" where
  "patternSource keyword =
     [backslash, CHR ''b''] @ escapeRegExp (toLowerCase keyword) @ [backslash, CHR ''b'']"

text \<open>
  The regular expressions of the runtime, for the patterns made of the assertion \<open>\b\<close>,
  pattern characters and identity escapes of syntax characters. \<open>syntaxChars\<close> are the
  syntax characters of the pattern grammar, which stand for themselves only after a
  backslash. \<open>parsePattern\<close> is \<open>None\<close> on every other pattern source: a source with
  an operator, a class, a group or another escape, or a source that is a SyntaxError.
\<close>

datatype atom = WordBoundary | Literal char

definition syntaxChars :: string where
  "syntaxChars = ''^$'' @ [backslash] @ ''.*+?()[]{}|''"

fun parsePattern :: "string \<Rightarrow> atom list option" where
  "parsePattern [] = Some []"
| "parsePattern (c # cs) =
     (if c = backslash then
        (case cs of
           [] \<Rightarrow> None
         | d # ds \<Rightarrow>
             if d = CHR ''b'' then map_option ((#) WordBoundary) (parsePattern ds)
             else if d \<in> set syntaxChars then map_option ((#) (Literal d)) (parsePattern ds)
             else None)
      else if c \<in> set syntaxChars then None
      else map_option ((#) (Literal c)) (parsePattern cs))"

text \<open>
  A word character is a letter, a digit or the underscore. With the flag \<open>i\<close> two
  characters match when their upper-case forms are equal.
\<close>

definition isWordChar :: "char \<Rightarrow> bool" where
  "isWordChar c =
     (let n = (of_char c :: nat)
      in (65 \<le> n \<and> n \<le> 90) \<or> (97 \<le> n \<and> n \<le> 122) \<or> (48 \<le> n \<and> n \<le> 57) \<or> n = 95)"

definition canonicalize :: "char \<Rightarrow> char" where
  "canonicalize c =
     (let n = (of_char c :: nat) in if 97 \<le> n \<and> n \<le> 122 then char_of (n - 32) else c)"

text \<open>
  \<open>matchAtoms as prev rest\<close>: the atoms match at the current position, where \<open>prev\<close> is
  the character before the position (\<open>None\<close> at the start of the text) and \<open>rest\<close> is the
  text from the position on. \<open>\b\<close> holds where exactly one of the two neighbours is a
  word character.
\<close>

definition wordBefore :: "char option \<Rightarrow> bool" where
  "wordBefore prev = (case prev of None \<Rightarrow> False | Some c \<Rightarrow> isWordChar c)"

definition wordAfter :: "string \<Rightarrow> bool" where
  "wordAfter rest = (case rest of [] \<Rightarrow> False | c # _ \<Rightarrow> isWordChar c)"

fun matchAtoms :: "atom list \<Rightarrow> char option \<Rightarrow> string \<Rightarrow> bool" where
  "matchAtoms [] prev rest = True"
| "matchAtoms (WordBoundary # as) prev rest =
     (wordBefore prev \<noteq> wordAfter rest \<and> matchAtoms as prev rest)"
| "matchAtoms (Literal c # as) prev rest =
     (case rest of
        [] \<Rightarrow> False
      | d # ds \<Rightarrow> canonicalize c = canonicalize d \<and> matchAtoms as (Some d) ds)"

text \<open>\<open>RegExp.prototype.test\<close> without the flags \<open>g\<close> and \<open>y\<close>: a match at some start
  position, tried from left to right.\<close>

fun searchFrom :: "atom list \<Rightarrow> char option \<Rightarrow> string \<Rightarrow> bool" where
  "searchFrom as prev [] = matchAtoms as prev []"
| "searchFrom as prev (d # ds) = (matchAtoms as prev (d # ds) \<or> searchFrom as (Some d) ds)"

definition regexTest :: "atom list \<Rightarrow> string \<Rightarrow> bool" where
  "regexTest as text = searchFrom as None text"

datatype js_error = TypeError | SyntaxError

text \<open>
  \<open>findMatchingKeyword\<close>: the first keyword of the list whose pattern tests true, or
  \<open>null\<close>. A pattern source outside the patterns above is reported as a SyntaxError.
\<close>

fun findMatchingKeyword_loop :: "string list \<Rightarrow> string \<Rightarrow> js_error + string option" where
  "findMatchingKeyword_loop [] lowerText = Inr None"
| "findMatchingKeyword_loop (keyword # rest) lowerText =
     (case parsePattern (patternSource keyword) of
        None \<Rightarrow> Inl SyntaxError
      | Some regex \<Rightarrow>
          if regexTest regex lowerText then Inr (Some keyword)
          else findMatchingKeyword_loop rest lowerText)"

definition findMatchingKeyword :: "FilterSettings \<Rightarrow> string \<Rightarrow> js_error + string option" where
  "findMatchingKeyword s text = findMatchingKeyword_loop (keywords_list s) (toLowerCase text)"

text \<open>
  The atoms of the pattern of a keyword, and the test of one keyword against a text, used
  to state what \<open>findMatchingKeyword\<close> computes.
\<close>

definition keywordAtoms :: "string \<Rightarrow> atom list" where
  "keywordAtoms keyword = WordBoundary # map Literal (toLowerCase keyword) @ [WordBoundary]"

definition keywordMatches :: "string \<Rightarrow> string \<Rightarrow> bool" where
  "keywordMatches keyword text = regexTest (keywordAtoms keyword) (toLowerCase text)"

text \<open>
  What the specification calls a standalone word: the lower-cased keyword stands in the
  lower-cased text with no word character directly before it and none directly after it.
  \<open>lastChar prev s\<close> is the character before the position that follows \<open>s\<close>.
\<close>

definition lastChar :: "char option \<Rightarrow> string \<Rightarrow> char option" where
  "lastChar prev s = (if s = [] then prev else Some (last s))"

definition standaloneIn :: "string \<Rightarrow> string \<Rightarrow> bool" where
  "standaloneIn keyword text \<longleftrightarrow>
     (\<exists>pre post. toLowerCase text = pre @ toLowerCase keyword @ post
        \<and> \<not> wordBefore (lastChar None pre) \<and> \<not> wordAfter post)"

section \<open>Subreddit block list\<close>

text \<open>
  \<open>isBlockedSubreddit\<close>: \<open>Array.prototype.some\<close> over the block list, comparing the
  lower-cased entry with the lower-cased page value by \<open>===\<close>.
\<close>

definition isBlockedSubreddit :: "FilterSettings \<Rightarrow> string \<Rightarrow> bool" where
  "isBlockedSubreddit s subredditName =
     (let lowerSubreddit = toLowerCase subredditName
      in list_ex (\<lambda>blocked. toLowerCase blocked = lowerSubreddit) (subreddits s))"

section \<open>Counters and their persistence\<close>

text \<open>
  The persistence store holds at most one record under the key \<open>filterCounters\<close>. A read
  or a write of the store can be rejected; both are caught by the code.
\<close>

record Storage =
  filterCounters :: "CounterData option"

record StorageFaults =
  getFails :: bool
  setFails :: bool

text \<open>\<open>saveCounters\<close>: the write is attempted; a rejected write is logged and changes nothing.\<close>

definition saveCounters :: "StorageFaults \<Rightarrow> CounterData \<Rightarrow> Storage \<Rightarrow> Storage" where
  "saveCounters f c st = (if setFails f then st else st\<lparr>filterCounters := Some c\<rparr>)"

text \<open>
  \<open>loadCounters\<close>, with the current date string \<open>today\<close> (the value of
  \<open>new Date().toDateString()\<close>). Every writer of the key stores a complete record, so the
  spread \<open>{...this.counters, ...result.filterCounters}\<close> is the stored record.
\<close>

definition loadCounters ::
  "StorageFaults \<Rightarrow> string \<Rightarrow> CounterData \<Rightarrow> Storage \<Rightarrow> CounterData \<times> Storage" where
  "loadCounters f today c st =
     (if getFails f then (c, st)
      else case filterCounters st of
        Some stored \<Rightarrow>
          if lastResetDate stored \<noteq> today
          then (let c' = stored\<lparr>dailyRemoved := 0, lastResetDate := today\<rparr>
                in (c', saveCounters f c' st))
          else (stored, st)
      | None \<Rightarrow> (c, saveCounters f c st))"

text \<open>\<open>incrementCounters\<close>: both counters go up by one, then the record is saved.\<close>

definition incrementCounters ::
  "StorageFaults \<Rightarrow> CounterData \<Rightarrow> Storage \<Rightarrow> CounterData \<times> Storage" where
  "incrementCounters f c st =
     (let c' = c\<lparr>totalRemoved := totalRemoved c + 1, dailyRemoved := dailyRemoved c + 1\<rparr>
      in (c', saveCounters f c' st))"

text \<open>The invariant of the counters that the specification states.\<close>

definition counters_inv :: "CounterData \<Rightarrow> bool" where
  "counters_inv c \<longleftrightarrow> 0 \<le> dailyRemoved c \<and> dailyRemoved c \<le> totalRemoved c"

definition storage_inv :: "Storage \<Rightarrow> bool" where
  "storage_inv st \<longleftrightarrow> (case filterCounters st of None \<Rightarrow> True | Some c \<Rightarrow> counters_inv c)"

section \<open>The page\<close>

text \<open>
  An element has a tag name (upper case, as \<open>tagName\<close> gives it for the elements of an HTML
  page), attributes, the text of its own text nodes and child elements. Nodes are never
  moved: \<open>removeChild\<close> cuts the link between a child and its parent, and the flag
  \<open>detached\<close> of the child records the cut; the child and its subtree stay where they were,
  so that the references the program still holds to them keep their meaning, as object
  references do. An element reference is the path of child indices from the root element.
\<close>

datatype element =
  Element (elTag: string) (attrs: "(string \<times> string) list") (ownText: string)
    (detached: bool) (kids: "element list")

definition getAttribute :: "element \<Rightarrow> string \<Rightarrow> string option" where
  "getAttribute e name = map_of (attrs e) name"

fun setAttribute :: "string \<Rightarrow> string \<Rightarrow> element \<Rightarrow> element" where
  "setAttribute name v (Element t a x d ks) =
     Element t ((name, v) # filter (\<lambda>(k, _). k \<noteq> name) a) x d ks"

text \<open>\<open>a || ''\<close> for an attribute value \<open>a\<close> that is a string or \<open>null\<close>.\<close>

definition orEmpty :: "string option \<Rightarrow> string" where
  "orEmpty a = (case a of None \<Rightarrow> [] | Some v \<Rightarrow> v)"

fun node_at :: "element \<Rightarrow> nat list \<Rightarrow> element option" where
  "node_at e [] = Some e"
| "node_at e (i # p) = (if i < length (kids e) then node_at (kids e ! i) p else None)"

text \<open>A reference that resolves to no node stands for an empty detached element; the
  references of the program always resolve.\<close>

definition resolve :: "element \<Rightarrow> nat list \<Rightarrow> element" where
  "resolve doc ele = (case node_at doc ele of Some e \<Rightarrow> e | None \<Rightarrow> Element [] [] [] True [])"

text \<open>\<open>document.contains(ele)\<close>: every link on the way from the root to the element is intact.\<close>

fun contains :: "element \<Rightarrow> nat list \<Rightarrow> bool" where
  "contains e [] = True"
| "contains e (i # p) =
     (i < length (kids e) \<and> \<not> detached (kids e ! i) \<and> contains (kids e ! i) p)"

definition isArticle :: "element \<Rightarrow> bool" where
  "isArticle e \<longleftrightarrow> elTag e = ''ARTICLE''"

definition isShredditPost :: "element \<Rightarrow> bool" where
  "isShredditPost e \<longleftrightarrow> elTag e = ''SHREDDIT-POST''"

text \<open>
  \<open>ele.closest('article')\<close>: the nearest article among the element and the ancestors it is
  still linked to. The result is a path from \<open>e\<close>.
\<close>

fun closestArticle :: "element \<Rightarrow> nat list \<Rightarrow> nat list option" where
  "closestArticle e [] = (if isArticle e then Some [] else None)"
| "closestArticle e (i # p) =
     (if i < length (kids e) then
        (case closestArticle (kids e ! i) p of
           Some q \<Rightarrow> Some (i # q)
         | None \<Rightarrow> if contains e (i # p) \<and> isArticle e then Some [] else None)
      else None)"

text \<open>The descendants of an element in tree order, over intact links.\<close>

fun descendants :: "element \<Rightarrow> element list" where
  "descendants (Element t a x d ks) =
     concat (map (\<lambda>k. if detached k then [] else k # descendants k) ks)"

text \<open>The paths, from \<open>e\<close>, of \<open>e\<close> and its descendants in tree order.\<close>

fun elementPaths :: "element \<Rightarrow> nat list list"
  and kidPaths :: "nat \<Rightarrow> element list \<Rightarrow> nat list list" where
  "elementPaths (Element t a x d ks) = [] # kidPaths 0 ks"
| "kidPaths i [] = []"
| "kidPaths i (k # ks) =
     (if detached k then [] else map ((#) i) (elementPaths k)) @ kidPaths (Suc i) ks"

text \<open>The class selector: the banner class is one of the tokens of the \<open>class\<close> attribute.\<close>

definition isSpace :: "char \<Rightarrow> bool" where
  "isSpace c \<longleftrightarrow> (of_char c :: nat) \<in> {9, 10, 12, 13, 32}"

fun tokens :: "string \<Rightarrow> string \<Rightarrow> string list" where
  "tokens cur [] = (if cur = [] then [] else [cur])"
| "tokens cur (c # cs) =
     (if isSpace c then (if cur = [] then tokens [] cs else cur # tokens [] cs)
      else tokens (cur @ [c]) cs)"

definition bannerClass :: string where
  "bannerClass = ''reddit-filter-collapse-banner''"

definition isBanner :: "element \<Rightarrow> bool" where
  "isBanner e \<longleftrightarrow> bannerClass \<in> set (tokens [] (orEmpty (getAttribute e ''class'')))"

text \<open>\<open>htmlElement.querySelector('.reddit-filter-collapse-banner')\<close> is not \<open>null\<close>.\<close>

definition hasBanner :: "element \<Rightarrow> bool" where
  "hasBanner e = list_ex isBanner (descendants e)"

text \<open>\<open>ele.querySelector('shreddit-post')\<close>.\<close>

definition querySelectorShredditPost :: "element \<Rightarrow> element option" where
  "querySelectorShredditPost e = find isShredditPost (descendants e)"

text \<open>\<open>document.querySelectorAll('article[aria-label], shreddit-post')\<close>, as references.\<close>

definition isCandidate :: "element \<Rightarrow> bool" where
  "isCandidate e \<longleftrightarrow>
     (isArticle e \<and> getAttribute e ''aria-label'' \<noteq> None) \<or> isShredditPost e"

definition fetchArticleOrShredditPostsOnPage :: "element \<Rightarrow> nat list list" where
  "fetchArticleOrShredditPostsOnPage doc =
     filter (\<lambda>p. isCandidate (resolve doc p)) (elementPaths doc)"

section \<open>Classification\<close>

definition doubleQuote :: char where
  "doubleQuote = CHR 0x22"

text \<open>The block that records a keyword match; it stands twice in \<open>convertElementToPost\<close>.
  A match result is tested for truth, so the empty keyword counts as no match.\<close>

definition recordKeywordMatch :: "string option \<Rightarrow> Post \<Rightarrow> Post" where
  "recordKeywordMatch matchResult postInstance =
     (case matchResult of
        None \<Rightarrow> postInstance
      | Some k \<Rightarrow>
          if k = [] then postInstance
          else postInstance\<lparr>shouldRemove := True, matchedKeyword := k,
                 removalReason := ''keyword '' @ [doubleQuote] @ k @ [doubleQuote] @ '' matched''\<rparr>)"

definition convertElementToPost :: "FilterSettings \<Rightarrow> element \<Rightarrow> nat list \<Rightarrow> js_error + Post" where
  "convertElementToPost s doc ele =
     (let e = resolve doc ele;
          post0 = \<lparr>url = [], title = [], tagName = elTag e, subreddit = [], author = [],
                   matchedKeyword = [], shouldRemove = False, removalReason = []\<rparr>;
          shredditPost = (if tagName post0 = ''SHREDDIT-POST'' then Some e
                          else querySelectorShredditPost e);
          post1 = (case shredditPost of
                     None \<Rightarrow> post0
                   | Some sp \<Rightarrow>
                       (let permalink = getAttribute sp ''permalink'';
                            pu = (if orEmpty permalink \<noteq> []
                                  then post0\<lparr>url := ''https://www.reddit.com'' @ orEmpty permalink\<rparr>
                                  else post0)
                        in pu\<lparr>title := orEmpty (getAttribute sp ''post-title'')\<rparr>));
          article_step =
            (if elTag e = ''ARTICLE'' then
               (let pt = post1\<lparr>title := orEmpty (getAttribute e ''aria-label'')\<rparr>
                in case findMatchingKeyword s (title pt) of
                     Inl err \<Rightarrow> Inl err
                   | Inr matchResult \<Rightarrow> Inr (recordKeywordMatch matchResult pt))
             else Inr post1)
      in case article_step of
           Inl err \<Rightarrow> Inl err
         | Inr post2 \<Rightarrow>
             (let own = getAttribute e ''subreddit-prefixed-name'';
                  sub = (if orEmpty own \<noteq> [] then orEmpty own
                         else (case shredditPost of
                                 None \<Rightarrow> []
                               | Some sp \<Rightarrow> orEmpty (getAttribute sp ''subreddit-prefixed-name'')));
                  post3 = post2\<lparr>subreddit := sub\<rparr>;
                  post4 = (if sub \<noteq> [] \<and> isBlockedSubreddit s sub
                           then post3\<lparr>shouldRemove := True,
                                  removalReason := ''blocked subreddit: '' @ sub\<rparr>
                           else post3)
              in if \<not> shouldRemove post4 \<and> tagName post4 = ''SHREDDIT-POST'' then
                   (case closestArticle doc ele of
                      None \<Rightarrow> Inr post4
                    | Some parentArticle \<Rightarrow>
                        (let ariaLabel = orEmpty (getAttribute (resolve doc parentArticle)
                                                   ''aria-label'');
                             post5 = (if title post4 = [] then post4\<lparr>title := ariaLabel\<rparr>
                                      else post4)
                         in case findMatchingKeyword s ariaLabel of
                              Inl err \<Rightarrow> Inl err
                            | Inr matchResult \<Rightarrow> Inr (recordKeywordMatch matchResult post5)))
                 else Inr post4))"

text \<open>
  What the verdict of \<open>convertElementToPost\<close> is stated with: the text that the keywords
  are tested against (the \<open>aria-label\<close> of an article, or of the closest article of a
  \<open>shreddit-post\<close>), the first keyword of the list that matches it, where the empty keyword
  counts as no match and ends the search, and the reason text of a keyword match.
\<close>

definition keywordText :: "element \<Rightarrow> nat list \<Rightarrow> string option" where
  "keywordText doc ele =
     (let e = resolve doc ele
      in if elTag e = ''ARTICLE'' then Some (orEmpty (getAttribute e ''aria-label''))
         else if elTag e = ''SHREDDIT-POST'' then
           (case closestArticle doc ele of
              None \<Rightarrow> None
            | Some a \<Rightarrow> Some (orEmpty (getAttribute (resolve doc a) ''aria-label'')))
         else None)"

text \<open>The subreddit of the page for an element: its own \<open>subreddit-prefixed-name\<close>, or
  else that of the first \<open>shreddit-post\<close> inside it.\<close>

definition pageSubreddit :: "element \<Rightarrow> nat list \<Rightarrow> string" where
  "pageSubreddit doc ele =
     (let e = resolve doc ele;
          own = orEmpty (getAttribute e ''subreddit-prefixed-name'')
      in if own \<noteq> [] then own
         else if elTag e = ''SHREDDIT-POST'' then []
         else (case querySelectorShredditPost e of
                 None \<Rightarrow> []
               | Some sp \<Rightarrow> orEmpty (getAttribute sp ''subreddit-prefixed-name'')))"

definition firstKeyword :: "FilterSettings \<Rightarrow> string option \<Rightarrow> string option" where
  "firstKeyword s text =
     (case text of
        None \<Rightarrow> None
      | Some t \<Rightarrow>
          (case find (\<lambda>k. keywordMatches k t) (keywords_list s) of
             None \<Rightarrow> None
           | Some k \<Rightarrow> if k = [] then None else Some k))"

definition keywordReason :: "string \<Rightarrow> string" where
  "keywordReason k = ''keyword '' @ [doubleQuote] @ k @ [doubleQuote] @ '' matched''"

text \<open>The verdict, the reason and the matched keyword of a post, in terms of the block
  list and the first matching keyword.\<close>

definition precedence_holds :: "FilterSettings \<Rightarrow> element \<Rightarrow> nat list \<Rightarrow> Post \<Rightarrow> bool" where
  "precedence_holds s doc ele post =
     (let blocked = (subreddit post \<noteq> [] \<and> isBlockedSubreddit s (subreddit post));
          kw = firstKeyword s (keywordText doc ele)
      in shouldRemove post = (blocked \<or> kw \<noteq> None)
       \<and> removalReason post =
           (if blocked then ''blocked subreddit: '' @ subreddit post
            else case kw of None \<Rightarrow> [] | Some k \<Rightarrow> keywordReason k)
       \<and> matchedKeyword post =
           (if blocked \<and> elTag (resolve doc ele) \<noteq> ''ARTICLE'' then []
            else case kw of None \<Rightarrow> [] | Some k \<Rightarrow> k))"

section \<open>Collapsing a post\<close>

text \<open>
  The banner that replaces the content: a \<open>div\<close> of the banner class with the reason text
  and the toggle button. Style declarations of the banner, the playback state of videos,
  the saved copies of the children and the toggle handler that reads them are left out:
  the page changes only by collapsing.
\<close>

definition banner :: "string \<Rightarrow> element" where
  "banner reason =
     Element ''DIV'' [(''class'', bannerClass)] [] False
       [Element ''SPAN'' [] (''Post filtered: '' @ reason) False [],
        Element ''BUTTON'' [] ''Show'' False []]"

fun detach :: "element \<Rightarrow> element" where
  "detach (Element t a x d ks) = Element t a x True ks"

fun collapseElement :: "string \<Rightarrow> element \<Rightarrow> element" where
  "collapseElement reason (Element t a x d ks) =
     setAttribute ''style'' ''position: relative;''
       (Element t a [] d (map detach ks @ [banner reason]))"

fun update_at :: "(element \<Rightarrow> element) \<Rightarrow> element \<Rightarrow> nat list \<Rightarrow> element" where
  "update_at f e [] = f e"
| "update_at f (Element t a x d ks) (i # p) =
     (if i < length ks then Element t a x d (ks[i := update_at f (ks ! i) p])
      else Element t a x d ks)"

text \<open>The element that is collapsed: the closest article, or the element itself.\<close>

definition collapseTarget :: "element \<Rightarrow> nat list \<Rightarrow> nat list" where
  "collapseTarget doc ele = (case closestArticle doc ele of Some a \<Rightarrow> a | None \<Rightarrow> ele)"

definition collapsePost :: "element \<Rightarrow> nat list \<Rightarrow> string \<Rightarrow> bool \<times> element" where
  "collapsePost doc ele reason =
     (if \<not> contains doc ele then (False, doc)
      else let elementToCollapse = collapseTarget doc ele
           in if hasBanner (resolve doc elementToCollapse) then (False, doc)
              else (True, update_at (collapseElement reason) doc elementToCollapse))"

section \<open>Account age\<close>

text \<open>
  A \<open>Date\<close> object holds a time value in milliseconds or is an Invalid Date (time value
  NaN). Numbers are exact: time values are integers, and the quotient that gives the age
  in months is a rational number.
\<close>

datatype Date = ValidDate int | InvalidDate

definition ageInMonths :: "int \<Rightarrow> int \<Rightarrow> rat" where
  "ageInMonths now created = of_int (now - created) / (1000 * 60 * 60 * 24 * 30.44)"

text \<open>
  \<open>isAccountTooYoung\<close>, with \<open>now\<close> the time value of \<open>new Date()\<close>. The time value of an
  Invalid Date is NaN, and a comparison with NaN is false.
\<close>

definition isAccountTooYoung :: "FilterSettings \<Rightarrow> int \<Rightarrow> Date \<Rightarrow> bool" where
  "isAccountTooYoung s now createdAt =
     (case createdAt of
        InvalidDate \<Rightarrow> False
      | ValidDate t \<Rightarrow> ageInMonths now t < of_int (minAccountAge s))"

text \<open>
  The profile document, as \<open>parseAccountCreationDate\<close> reads it: what the primary selector
  path finds and what the selector \<open>time[data-testid="cake-day"]\<close> finds. \<open>None\<close> is no
  element; \<open>Some a\<close> is an element whose \<open>datetime\<close> attribute is \<open>a\<close> (\<open>None\<close> when the
  attribute is absent).
\<close>

record ProfileDoc =
  cakeDayElement :: "string option option"
  fallbackElement :: "string option option"

text \<open>
  \<open>parseAccountCreationDate\<close>. \<open>dateParse\<close> is the date parser of the runtime behind
  \<open>new Date(datetime)\<close>: the time value of the string, or \<open>None\<close> when it is not a date.
  The result \<open>None\<close> is \<open>null\<close>.
\<close>

definition newDate :: "(string \<Rightarrow> int option) \<Rightarrow> string \<Rightarrow> Date" where
  "newDate dateParse datetime =
     (case dateParse datetime of None \<Rightarrow> InvalidDate | Some t \<Rightarrow> ValidDate t)"

definition parseAccountCreationDate ::
  "(string \<Rightarrow> int option) \<Rightarrow> ProfileDoc \<Rightarrow> Date option" where
  "parseAccountCreationDate dateParse doc =
     (case cakeDayElement doc of
        None \<Rightarrow>
          (case fallbackElement doc of
             Some (Some datetime) \<Rightarrow>
               if datetime \<noteq> [] then Some (newDate dateParse datetime) else None
           | _ \<Rightarrow> None)
      | Some None \<Rightarrow> None
      | Some (Some datetime) \<Rightarrow>
          if datetime = [] then None else Some (newDate dateParse datetime))"

text \<open>The outcome of the external call: \<open>fetch\<close> or \<open>response.text()\<close> rejects, the status is
  not ok, or the body is a document.\<close>

datatype Response = FetchRejected | NotOk nat | BodyRejected | Html ProfileDoc

record CacheEntry =
  createdAt :: Date
  fetchedAt :: int

text \<open>
  The cache is a plain object. Reading \<open>userAgeCache[username]\<close> finds the entry stored
  under the name, or else a property inherited from \<open>Object.prototype\<close>, or else
  \<open>undefined\<close>.
\<close>

datatype CacheRead = Own CacheEntry | Inherited | Undefined

definition objectPrototypeKeys :: "string list" where
  "objectPrototypeKeys =
     [''constructor'', ''__proto__'', ''hasOwnProperty'', ''isPrototypeOf'',
      ''propertyIsEnumerable'', ''toLocaleString'', ''toString'', ''valueOf'',
      ''__defineGetter__'', ''__defineSetter__'', ''__lookupGetter__'', ''__lookupSetter__'']"

definition cacheRead :: "(string \<rightharpoonup> CacheEntry) \<Rightarrow> string \<Rightarrow> CacheRead" where
  "cacheRead cache username =
     (case cache username of
        Some e \<Rightarrow> Own e
      | None \<Rightarrow> if username \<in> set objectPrototypeKeys then Inherited else Undefined)"

text \<open>The fields of the class \<open>Filter\<close> that the filtering pipeline reads and writes. The
  pending map keeps its entries in insertion order; its keys are element references.\<close>

record Filter =
  settings :: FilterSettings
  counters :: CounterData
  userAgeCache :: "string \<rightharpoonup> CacheEntry"
  pendingRequests :: "string set"
  elementToPostMapProcessAsync :: "(nat list \<times> Post) list"

text \<open>
  \<open>fetchUserProfile\<close> is asynchronous. \<open>fetchUserProfile_start\<close> is the code up to the
  first \<open>await\<close>: it returns a result, or throws, or issues the external call and suspends
  (\<open>Requested\<close>). An inherited property is truthy and has no \<open>fetchedAt\<close>, so reading
  \<open>cached.fetchedAt.getTime()\<close> throws a TypeError.
\<close>

datatype FetchStart = Returned "Date option" | Threw js_error | Requested

definition fetchUserProfile_start :: "int \<Rightarrow> string \<Rightarrow> Filter \<Rightarrow> FetchStart \<times> Filter" where
  "fetchUserProfile_start now username F =
     (let afterCache =
        (if username \<in> pendingRequests F then (Returned None, F)
         else (Requested, F\<lparr>pendingRequests := insert username (pendingRequests F)\<rparr>))
      in case cacheRead (userAgeCache F) username of
        Inherited \<Rightarrow> (Threw TypeError, F)
      | Own cached \<Rightarrow>
          if now - fetchedAt cached < 3600000 then (Returned (Some (createdAt cached)), F)
          else afterCache
      | Undefined \<Rightarrow> afterCache)"

text \<open>
  \<open>fetchUserProfile_finish\<close> is the code after the external call has settled, with \<open>now\<close>
  the time value of \<open>new Date()\<close> at that moment. A parsed date is written to the cache
  before it is logged with \<open>toISOString\<close>, which throws a RangeError on an Invalid Date;
  the \<open>catch\<close> block turns every exception into \<open>null\<close>, and the \<open>finally\<close> block removes
  the name from the pending set.
\<close>

definition fetchUserProfile_finish ::
  "(string \<Rightarrow> int option) \<Rightarrow> int \<Rightarrow> string \<Rightarrow> Response \<Rightarrow> Filter \<Rightarrow> Date option \<times> Filter" where
  "fetchUserProfile_finish dateParse now username resp F =
     (let (r, F') =
        (case resp of
           FetchRejected \<Rightarrow> (None, F)
         | NotOk status \<Rightarrow> (None, F)
         | BodyRejected \<Rightarrow> (None, F)
         | Html doc \<Rightarrow>
             (case parseAccountCreationDate dateParse doc of
                None \<Rightarrow> (None, F)
              | Some created \<Rightarrow>
                  let F1 = F\<lparr>userAgeCache := (userAgeCache F)
                             (username \<mapsto> \<lparr>createdAt = created, fetchedAt = now\<rparr>)\<rparr>
                  in (case created of
                        InvalidDate \<Rightarrow> (None, F1)
                      | ValidDate t \<Rightarrow> (Some created, F1))))
      in (r, F'\<lparr>pendingRequests := pendingRequests F' - {username}\<rparr>))"

text \<open>
  The environment of one run: the clock, the date parser of the runtime, the answer of the
  profile endpoint for each user name, and the faults of the persistence store.
\<close>

record Env =
  clock :: int
  dateParse :: "string \<Rightarrow> int option"
  fetch :: "string \<Rightarrow> Response"
  faults :: StorageFaults

text \<open>
  \<open>fetchUserProfile\<close> run from start to end with nothing in between. The third component
  lists the user names for which an external call was made.
\<close>

definition fetchUserProfile ::
  "Env \<Rightarrow> string \<Rightarrow> Filter \<Rightarrow> (js_error + Date option) \<times> Filter \<times> string list" where
  "fetchUserProfile env username F =
     (case fetchUserProfile_start (clock env) username F of
        (Returned r, F') \<Rightarrow> (Inr r, F', [])
      | (Threw e, F') \<Rightarrow> (Inl e, F', [])
      | (Requested, F') \<Rightarrow>
          (let (r, F'') = fetchUserProfile_finish (dateParse env) (clock env) username
                            (fetch env username) F'
           in (Inr r, F'', [username])))"

section \<open>The two passes\<close>

text \<open>The filter object, the page and the persistence store.\<close>

record World =
  filter_state :: Filter
  page :: element
  storage :: Storage

definition incrementCountersW :: "StorageFaults \<Rightarrow> World \<Rightarrow> World" where
  "incrementCountersW f w =
     (let (c', st') = incrementCounters f (counters (filter_state w)) (storage w)
      in w\<lparr>filter_state := (filter_state w)\<lparr>counters := c'\<rparr>, storage := st'\<rparr>)"

text \<open>\<open>Map.prototype.set\<close> and \<open>Map.prototype.delete\<close> on the pending map.\<close>

fun mapSet :: "nat list \<Rightarrow> Post \<Rightarrow> (nat list \<times> Post) list \<Rightarrow> (nat list \<times> Post) list" where
  "mapSet k v [] = [(k, v)]"
| "mapSet k v ((k', v') # m) = (if k' = k then (k, v) # m else (k', v') # mapSet k v m)"

definition mapDelete :: "nat list \<Rightarrow> (nat list \<times> Post) list \<Rightarrow> (nat list \<times> Post) list" where
  "mapDelete k m = filter (\<lambda>(k', _). k' \<noteq> k) m"

definition pendingSet :: "nat list \<Rightarrow> Post \<Rightarrow> World \<Rightarrow> World" where
  "pendingSet ele post w =
     w\<lparr>filter_state := (filter_state w)\<lparr>elementToPostMapProcessAsync :=
          mapSet ele post (elementToPostMapProcessAsync (filter_state w))\<rparr>\<rparr>"

definition pendingDelete :: "nat list \<Rightarrow> World \<Rightarrow> World" where
  "pendingDelete ele w =
     w\<lparr>filter_state := (filter_state w)\<lparr>elementToPostMapProcessAsync :=
          mapDelete ele (elementToPostMapProcessAsync (filter_state w))\<rparr>\<rparr>"

text \<open>The post was expanded by the user: the closest article, or the element itself,
  carries the mark.\<close>

definition isExpanded :: "element \<Rightarrow> nat list \<Rightarrow> bool" where
  "isExpanded doc ele \<longleftrightarrow>
     getAttribute (resolve doc (collapseTarget doc ele)) ''data-reddit-filter-expanded''
       = Some ''true''"

text \<open>The body of the \<open>forEach\<close> of \<open>removePostsFirstPass\<close>.\<close>

definition firstPassElement :: "StorageFaults \<Rightarrow> nat list \<Rightarrow> World \<Rightarrow> js_error + World" where
  "firstPassElement f ele w =
     (if isExpanded (page w) ele then Inr w
      else case convertElementToPost (settings (filter_state w)) (page w) ele of
        Inl err \<Rightarrow> Inl err
      | Inr post \<Rightarrow>
          if shouldRemove post then
            (let (wasCollapsed, doc') = collapsePost (page w) ele (removalReason post);
                 w' = w\<lparr>page := doc'\<rparr>
             in Inr (if wasCollapsed then incrementCountersW f w' else w'))
          else if accountAgeFilterEnabled (settings (filter_state w))
          then Inr (pendingSet ele post w)
          else Inr w)"

text \<open>A loop over a list whose body may throw; an exception ends the loop.\<close>

fun forEach :: "('a \<Rightarrow> 's \<Rightarrow> js_error + 's) \<Rightarrow> 'a list \<Rightarrow> 's \<Rightarrow> js_error + 's" where
  "forEach body [] w = Inr w"
| "forEach body (x # xs) w =
     (case body x w of Inl err \<Rightarrow> Inl err | Inr w' \<Rightarrow> forEach body xs w')"

text \<open>\<open>removePostsFirstPass\<close>: the list of candidates is taken once, before the loop.\<close>

definition removePostsFirstPass :: "StorageFaults \<Rightarrow> World \<Rightarrow> js_error + World" where
  "removePostsFirstPass f w =
     forEach (firstPassElement f) (fetchArticleOrShredditPostsOnPage (page w)) w"

text \<open>Decimal numerals: \<open>toFixed(1)\<close> of the age and the threshold in the reason text.
  \<open>toFixed1\<close> rounds the exact quotient, half up; the runtime rounds the double nearest to
  it, which can give the neighbouring digit where the exact quotient lies halfway.\<close>

definition digitChar :: "nat \<Rightarrow> char" where
  "digitChar n = char_of (48 + n)"

function showNat :: "nat \<Rightarrow> string" where
  "showNat n = (if n < 10 then [digitChar n] else showNat (n div 10) @ [digitChar (n mod 10)])"
  by pat_completeness auto
termination
  by (relation "measure id") auto

definition showInt :: "int \<Rightarrow> string" where
  "showInt i = (if i < 0 then ''-'' @ showNat (nat (- i)) else showNat (nat i))"

definition toFixed1 :: "rat \<Rightarrow> string" where
  "toFixed1 x =
     (let n = nat \<lfloor>\<bar>x\<bar> * 10 + 1 / 2\<rfloor>
      in (if x < 0 then ''-'' else []) @ showNat (n div 10) @ ''.'' @ [digitChar (n mod 10)])"

definition ageReason :: "FilterSettings \<Rightarrow> string \<Rightarrow> int \<Rightarrow> int \<Rightarrow> string" where
  "ageReason s user now created =
     ''account too young: '' @ user @ '' ('' @ toFixed1 (ageInMonths now created)
       @ '' months old, minimum: '' @ showInt (minAccountAge s) @ '')''"

text \<open>
  \<open>parseAuthorFromElementCalcAge\<close>, run without interruption at the time \<open>clock env\<close>. The
  result is the post as the function leaves it, the new state and the user names looked up
  externally. An exception of \<open>fetchUserProfile\<close> is caught and logged.
\<close>

definition parseAuthorFromElementCalcAge ::
  "Env \<Rightarrow> nat list \<Rightarrow> Post \<Rightarrow> World \<Rightarrow> Post \<times> World \<times> string list" where
  "parseAuthorFromElementCalcAge env ele post w =
     (if tagName post = ''SHREDDIT-POST'' then
        (let post1 = post\<lparr>author := orEmpty (getAttribute (resolve (page w) ele) ''author'')\<rparr>
         in if author post1 \<noteq> [] then
              (case fetchUserProfile env (author post1) (filter_state w) of
                 (Inl err, F', calls) \<Rightarrow> (post1, w\<lparr>filter_state := F'\<rparr>, calls)
               | (Inr None, F', calls) \<Rightarrow> (post1, w\<lparr>filter_state := F'\<rparr>, calls)
               | (Inr (Some created), F', calls) \<Rightarrow>
                   (let w1 = w\<lparr>filter_state := F'\<rparr>
                    in if isAccountTooYoung (settings F') (clock env) created then
                         (let post2 = post1\<lparr>shouldRemove := True,
                                 removalReason :=
                                   (case created of
                                      ValidDate t \<Rightarrow>
                                        ageReason (settings F') (author post1) (clock env) t
                                    | InvalidDate \<Rightarrow> [])\<rparr>;
                              (wasCollapsed, doc') =
                                collapsePost (page w1) ele (removalReason post2);
                              w2 = w1\<lparr>page := doc'\<rparr>
                          in (post2,
                              if wasCollapsed then incrementCountersW (faults env) w2 else w2,
                              calls))
                       else (post1, w1, calls)))
            else (post1, w, []))
      else (post, w, []))"

text \<open>The body of the loop of \<open>removePostsSecondPass\<close> for one entry of the batch.\<close>

definition secondPassEntry ::
  "Env \<Rightarrow> nat list \<times> Post \<Rightarrow> World \<times> string list \<Rightarrow> World \<times> string list" where
  "secondPassEntry env entry acc =
     (case (entry, acc) of
        ((element, post), (w, calls)) \<Rightarrow>
          if \<not> contains (page w) element then (pendingDelete element w, calls)
          else if isExpanded (page w) element then (pendingDelete element w, calls)
          else (case parseAuthorFromElementCalcAge env element post w of
                  (post', w', cs) \<Rightarrow> (pendingDelete element w', calls @ cs)))"

text \<open>\<open>removePostsSecondPass\<close>, run without interruption: the first five entries of the
  pending map, in insertion order.\<close>

definition removePostsSecondPass :: "Env \<Rightarrow> World \<Rightarrow> World \<times> string list" where
  "removePostsSecondPass env w =
     (if \<not> accountAgeFilterEnabled (settings (filter_state w)) then (w, [])
      else fold (secondPassEntry env)
             (take 5 (elementToPostMapProcessAsync (filter_state w))) (w, []))"

section \<open>Invariant of the first pass\<close>

text \<open>
  \<open>removes\<close>: classification says that the post is to be removed. \<open>handled\<close>: every element
  on the page that is a candidate, is not marked as expanded and is to be removed either
  waits in the list \<open>todo\<close> or has a banner inside the element that would be collapsed
  for it.
\<close>

definition removes :: "FilterSettings \<Rightarrow> element \<Rightarrow> nat list \<Rightarrow> bool" where
  "removes s doc p \<longleftrightarrow> (\<exists>post. convertElementToPost s doc p = Inr post \<and> shouldRemove post)"

definition handled :: "FilterSettings \<Rightarrow> element \<Rightarrow> nat list list \<Rightarrow> bool" where
  "handled s doc todo \<longleftrightarrow>
     (\<forall>p. contains doc p \<and> isCandidate (resolve doc p) \<and> \<not> isExpanded doc p \<and> removes s doc p
          \<longrightarrow> p \<in> set todo \<or> hasBanner (resolve doc (collapseTarget doc p)))"

section \<open>Example states\<close>

definition noFaults :: StorageFaults where
  "noFaults = \<lparr>getFails = False, setFails = False\<rparr>"

definition exampleSettings :: FilterSettings where
  "exampleSettings =
     \<lparr>keywords_list = [''crypto''], subreddits = [''r/spam''], enabled = True,
      minAccountAge = 12, accountAgeFilterEnabled = True\<rparr>"

text \<open>A page with one article that holds one post by the user \<open>carol\<close>.\<close>

definition examplePage :: element where
  "examplePage =
     Element ''HTML'' [] [] False
       [Element ''BODY'' [] [] False
          [Element ''ARTICLE'' [(''aria-label'', ''Dogs'')] [] False
             [Element ''SHREDDIT-POST''
                [(''author'', ''carol''), (''subreddit-prefixed-name'', ''r/dogs''),
                 (''post-title'', ''Dogs''), (''permalink'', ''/r/dogs/1'')] [] False []]]]"

definition exampleFilter :: Filter where
  "exampleFilter =
     \<lparr>settings = exampleSettings,
      counters = \<lparr>totalRemoved = 5, dailyRemoved = 2, lastResetDate = ''Mon Nov 02 2026''\<rparr>,
      userAgeCache = Map.empty, pendingRequests = {}, elementToPostMapProcessAsync = []\<rparr>"

definition exampleWorld :: World where
  "exampleWorld =
     \<lparr>filter_state = exampleFilter, page = examplePage,
      storage = \<lparr>filterCounters = Some (counters exampleFilter)\<rparr>\<rparr>"

text \<open>The post that \<open>convertElementToPost\<close> makes of the \<open>shreddit-post\<close> element of the
  example page.\<close>

definition examplePost :: Post where
  "examplePost =
     \<lparr>url = ''https://www.reddit.com/r/dogs/1'', title = ''Dogs'', tagName = ''SHREDDIT-POST'',
      subreddit = ''r/dogs'', author = [], matchedKeyword = [], shouldRemove = False,
      removalReason = []\<rparr>"

text \<open>
  A run at noon of 2 November 2026 (UTC). The date parser knows two date strings, which lie
  3 and 20 months of 30.44 days before that moment, and rejects every other string; the
  profile endpoint answers with a document whose cake-day element carries the given
  \<open>datetime\<close> attribute.
\<close>

definition exampleDateParse :: "string \<Rightarrow> int option" where
  "exampleDateParse s =
     (if s = ''2026-08-03T04:19:12.000Z'' then Some 1785730752000
      else if s = ''2025-03-03T16:48:00.000Z'' then Some 1741020480000
      else None)"

definition exampleEnv :: "string \<Rightarrow> Env" where
  "exampleEnv datetime =
     \<lparr>clock = 1793620800000, dateParse = exampleDateParse,
      fetch = (\<lambda>u. Html \<lparr>cakeDayElement = None, fallbackElement = Some (Some datetime)\<rparr>),
      faults = noFaults\<rparr>"

text \<open>The example filter with a cache entry for \<open>carol\<close> that was fetched 61 minutes
  before the run.\<close>

definition staleFilter :: Filter where
  "staleFilter =
     exampleFilter\<lparr>userAgeCache :=
       [''carol'' \<mapsto> \<lparr>createdAt = ValidDate 1741020480000, fetchedAt = 1793617140000\<rparr>]\<rparr>"

text \<open>A page with an article about crypto whose post is in the blocked subreddit.\<close>

definition cryptoSpamPage :: element where
  "cryptoSpamPage =
     Element ''HTML'' [] [] False
       [Element ''ARTICLE'' [(''aria-label'', ''Crypto news'')] [] False
          [Element ''SHREDDIT-POST''
             [(''subreddit-prefixed-name'', ''r/spam''), (''post-title'', ''Crypto news'')]
             [] False []]]"

text \<open>A page with an article about crypto whose post is in a subreddit that is not
  blocked.\<close>

definition cryptoNewsPage :: element where
  "cryptoNewsPage =
     Element ''HTML'' [] [] False
       [Element ''ARTICLE'' [(''aria-label'', ''Crypto news'')] [] False
          [Element ''SHREDDIT-POST''
             [(''subreddit-prefixed-name'', ''r/news''), (''post-title'', ''Crypto news'')]
             [] False []]]"

text \<open>The example world with two entries in the pending map: the article of the example
  page and the post inside it.\<close>

definition exampleArticlePost :: Post where
  "exampleArticlePost =
     \<lparr>url = ''https://www.reddit.com/r/dogs/1'', title = ''Dogs'', tagName = ''ARTICLE'',
      subreddit = ''r/dogs'', author = [], matchedKeyword = [], shouldRemove = False,
      removalReason = []\<rparr>"

definition pendingWorld :: World where
  "pendingWorld =
     exampleWorld\<lparr>filter_state := exampleFilter\<lparr>elementToPostMapProcessAsync :=
       [([0, 0], exampleArticlePost), ([0, 0, 0], examplePost)]\<rparr>\<rparr>"

text \<open>The example world on the page with the crypto article.\<close>

definition cryptoSpamWorld :: World where
  "cryptoSpamWorld = exampleWorld\<lparr>page := cryptoSpamPage\<rparr>"

section \<open>Properties\<close>

subsection \<open>Subreddit matching\<close>

text \<open>
  C3. A page subreddit is blocked exactly when some entry of the block list equals it as a
  whole string after both are lower-cased: equal length and equal characters up to the case
  of letters. The entry \<open>R/Foo\<close> blocks the page value \<open>r/foo\<close>, and a block list holding
  only \<open>r/foo\<close> does not block \<open>r/foobar\<close>.
\<close>

theorem isBlockedSubreddit_exact:
  "(isBlockedSubreddit s name \<longleftrightarrow>
      (\<exists>b \<in> set (subreddits s). length b = length name \<and>
         (\<forall>i < length name. lowerChar (b ! i) = lowerChar (name ! i))))
   \<and> isBlockedSubreddit (s\<lparr>subreddits := [''R/Foo'']\<rparr>) ''r/foo''
   \<and> \<not> isBlockedSubreddit (s\<lparr>subreddits := [''r/foo'']\<rparr>) ''r/foobar''"
proof (intro conjI)
  have eq: "toLowerCase b = toLowerCase name \<longleftrightarrow>
      length b = length name \<and> (\<forall>i < length name. lowerChar (b ! i) = lowerChar (name ! i))"
    for b
    by (auto simp: toLowerCase_def list_eq_iff_nth_eq)
  show "isBlockedSubreddit s name \<longleftrightarrow>
      (\<exists>b \<in> set (subreddits s). length b = length name \<and>
         (\<forall>i < length name. lowerChar (b ! i) = lowerChar (name ! i)))"
    unfolding isBlockedSubreddit_def Let_def list_ex_iff using eq by blast
  show "isBlockedSubreddit (s\<lparr>subreddits := [''R/Foo'']\<rparr>) ''r/foo''"
    by (simp add: isBlockedSubreddit_def toLowerCase_def lowerChar_def char_of_eq_iff)
  show "\<not> isBlockedSubreddit (s\<lparr>subreddits := [''r/foo'']\<rparr>) ''r/foobar''"
    by (simp add: isBlockedSubreddit_def toLowerCase_def)
qed

theorem isBlockedSubreddit_exact_witness:
  "isBlockedSubreddit
     \<lparr>keywords_list = [], subreddits = [''r/Spam'', ''R/Foo''], enabled = True,
      minAccountAge = 12, accountAgeFilterEnabled = False\<rparr> ''r/FOO''
   \<and> (\<exists>b \<in> set [''r/Spam'', ''R/Foo'']. length b = length ''r/FOO'' \<and>
         (\<forall>i < length ''r/FOO''. lowerChar (b ! i) = lowerChar (''r/FOO'' ! i)))"
proof -
  let ?s = "\<lparr>keywords_list = [], subreddits = [''r/Spam'', ''R/Foo''], enabled = True,
      minAccountAge = 12, accountAgeFilterEnabled = False\<rparr>"
  have b: "isBlockedSubreddit ?s ''r/FOO''"
    by code_simp
  from b isBlockedSubreddit_exact [of ?s "''r/FOO''"] show ?thesis by simp
qed

subsection \<open>Counters\<close>

text \<open>
  C8. When the store can be read and holds a record whose \<open>lastResetDate\<close> is not today,
  loading sets \<open>dailyRemoved\<close> to 0 and \<open>lastResetDate\<close> to today and takes \<open>totalRemoved\<close>
  from the stored record as it is; and for any stored record, loading a second time on the
  same day returns the counters and the store of the first load.
\<close>

theorem loadCounters_rollover:
  assumes "\<not> getFails f" and "filterCounters st = Some stored"
  shows "(lastResetDate stored \<noteq> today \<longrightarrow>
            dailyRemoved (fst (loadCounters f today c st)) = 0
          \<and> lastResetDate (fst (loadCounters f today c st)) = today
          \<and> totalRemoved (fst (loadCounters f today c st)) = totalRemoved stored)
       \<and> loadCounters f today (fst (loadCounters f today c st)) (snd (loadCounters f today c st))
           = loadCounters f today c st"
proof (cases "lastResetDate stored = today")
  case True
  with assms show ?thesis by (simp add: loadCounters_def)
next
  case False
  show ?thesis
  proof (cases "setFails f")
    case True
    with False assms show ?thesis by (simp add: loadCounters_def saveCounters_def Let_def)
  next
    case nofail: False
    with False assms show ?thesis by (simp add: loadCounters_def saveCounters_def Let_def)
  qed
qed

theorem loadCounters_rollover_witness:
  "loadCounters \<lparr>getFails = False, setFails = False\<rparr> ''Mon Nov 02 2026''
     \<lparr>totalRemoved = 0, dailyRemoved = 0, lastResetDate = ''Mon Nov 02 2026''\<rparr>
     \<lparr>filterCounters = Some \<lparr>totalRemoved = 42, dailyRemoved = 7,
        lastResetDate = ''Sun Nov 01 2026''\<rparr>\<rparr>
   = (\<lparr>totalRemoved = 42, dailyRemoved = 0, lastResetDate = ''Mon Nov 02 2026''\<rparr>,
      \<lparr>filterCounters = Some \<lparr>totalRemoved = 42, dailyRemoved = 0,
        lastResetDate = ''Mon Nov 02 2026''\<rparr>\<rparr>)
   \<and> loadCounters \<lparr>getFails = False, setFails = False\<rparr> ''Mon Nov 02 2026''
     \<lparr>totalRemoved = 42, dailyRemoved = 0, lastResetDate = ''Mon Nov 02 2026''\<rparr>
     \<lparr>filterCounters = Some \<lparr>totalRemoved = 42, dailyRemoved = 0,
        lastResetDate = ''Mon Nov 02 2026''\<rparr>\<rparr>
   = (\<lparr>totalRemoved = 42, dailyRemoved = 0, lastResetDate = ''Mon Nov 02 2026''\<rparr>,
      \<lparr>filterCounters = Some \<lparr>totalRemoved = 42, dailyRemoved = 0,
        lastResetDate = ''Mon Nov 02 2026''\<rparr>\<rparr>)"
proof -
  let ?f = "\<lparr>getFails = False, setFails = False\<rparr>"
  let ?stored = "\<lparr>totalRemoved = 42, dailyRemoved = 7, lastResetDate = ''Sun Nov 01 2026''\<rparr>"
  let ?st = "\<lparr>filterCounters = Some ?stored\<rparr>"
  let ?c = "\<lparr>totalRemoved = 0, dailyRemoved = 0, lastResetDate = ''Mon Nov 02 2026''\<rparr>"
  have run: "loadCounters ?f ''Mon Nov 02 2026'' ?c ?st
     = (\<lparr>totalRemoved = 42, dailyRemoved = 0, lastResetDate = ''Mon Nov 02 2026''\<rparr>,
        \<lparr>filterCounters = Some \<lparr>totalRemoved = 42, dailyRemoved = 0,
          lastResetDate = ''Mon Nov 02 2026''\<rparr>\<rparr>)"
    by (simp add: loadCounters_def saveCounters_def Let_def)
  have "\<not> getFails ?f" and "filterCounters ?st = Some ?stored" by simp_all
  from loadCounters_rollover [OF this, of "''Mon Nov 02 2026''" ?c] run
  show ?thesis by simp
qed

text \<open>
  C9. The invariant \<open>0 \<le> dailyRemoved \<le> totalRemoved\<close>, taken over the counters in memory
  and the record in the store, is kept by \<open>incrementCounters\<close> and by \<open>loadCounters\<close>.
  \<open>incrementCounters\<close> adds one to both counters, so \<open>totalRemoved\<close> does not go down;
  \<open>loadCounters\<close> returns the \<open>totalRemoved\<close> of the stored record when it reads one and
  the counters in memory as they are otherwise, and changes nothing but \<open>dailyRemoved\<close> and
  \<open>lastResetDate\<close> of the record it read.
\<close>

theorem counters_inv_preserved:
  assumes "counters_inv c" and "storage_inv st"
  shows "counters_inv (fst (incrementCounters f c st))
       \<and> storage_inv (snd (incrementCounters f c st))
       \<and> totalRemoved (fst (incrementCounters f c st)) = totalRemoved c + 1
       \<and> dailyRemoved (fst (incrementCounters f c st)) = dailyRemoved c + 1
       \<and> totalRemoved c \<le> totalRemoved (fst (incrementCounters f c st))
       \<and> counters_inv (fst (loadCounters f today c st))
       \<and> storage_inv (snd (loadCounters f today c st))
       \<and> (case filterCounters st of
            Some stored \<Rightarrow>
              if getFails f then fst (loadCounters f today c st) = c
              else totalRemoved (fst (loadCounters f today c st)) = totalRemoved stored
                 \<and> (fst (loadCounters f today c st) = stored
                    \<or> fst (loadCounters f today c st)
                        = stored\<lparr>dailyRemoved := 0, lastResetDate := today\<rparr>)
          | None \<Rightarrow> fst (loadCounters f today c st) = c)"
proof -
  have inc: "counters_inv (fst (incrementCounters f c st))"
    using assms(1) by (simp add: incrementCounters_def counters_inv_def Let_def)
  have inc_st: "storage_inv (snd (incrementCounters f c st))"
    using assms by (simp add: incrementCounters_def saveCounters_def counters_inv_def
        storage_inv_def Let_def)
  have inc_vals: "totalRemoved (fst (incrementCounters f c st)) = totalRemoved c + 1"
    "dailyRemoved (fst (incrementCounters f c st)) = dailyRemoved c + 1"
    by (simp_all add: incrementCounters_def Let_def)
  have load: "counters_inv (fst (loadCounters f today c st))"
    using assms
    by (auto simp: loadCounters_def counters_inv_def storage_inv_def Let_def
        split: option.splits)
  have load_st: "storage_inv (snd (loadCounters f today c st))"
    using assms
    by (auto simp: loadCounters_def saveCounters_def counters_inv_def storage_inv_def Let_def
        split: option.splits)
  have load_frame: "(case filterCounters st of
            Some stored \<Rightarrow>
              if getFails f then fst (loadCounters f today c st) = c
              else totalRemoved (fst (loadCounters f today c st)) = totalRemoved stored
                 \<and> (fst (loadCounters f today c st) = stored
                    \<or> fst (loadCounters f today c st)
                        = stored\<lparr>dailyRemoved := 0, lastResetDate := today\<rparr>)
          | None \<Rightarrow> fst (loadCounters f today c st) = c)"
    by (simp add: loadCounters_def Let_def split: option.splits)
  from inc inc_st inc_vals load load_st load_frame show ?thesis by simp
qed

theorem counters_inv_preserved_witness:
  "counters_inv \<lparr>totalRemoved = 9, dailyRemoved = 7, lastResetDate = ''Sun Nov 01 2026''\<rparr>
   \<and> storage_inv \<lparr>filterCounters = Some \<lparr>totalRemoved = 9, dailyRemoved = 7,
        lastResetDate = ''Sun Nov 01 2026''\<rparr>\<rparr>
   \<and> fst (incrementCounters \<lparr>getFails = False, setFails = False\<rparr>
        \<lparr>totalRemoved = 9, dailyRemoved = 7, lastResetDate = ''Sun Nov 01 2026''\<rparr>
        \<lparr>filterCounters = Some \<lparr>totalRemoved = 9, dailyRemoved = 7,
          lastResetDate = ''Sun Nov 01 2026''\<rparr>\<rparr>)
      = \<lparr>totalRemoved = 10, dailyRemoved = 8, lastResetDate = ''Sun Nov 01 2026''\<rparr>
   \<and> counters_inv (fst (loadCounters \<lparr>getFails = False, setFails = False\<rparr>
        ''Mon Nov 02 2026''
        \<lparr>totalRemoved = 9, dailyRemoved = 7, lastResetDate = ''Sun Nov 01 2026''\<rparr>
        \<lparr>filterCounters = Some \<lparr>totalRemoved = 9, dailyRemoved = 7,
          lastResetDate = ''Sun Nov 01 2026''\<rparr>\<rparr>))"
proof -
  let ?f = "\<lparr>getFails = False, setFails = False\<rparr>"
  let ?c = "\<lparr>totalRemoved = 9, dailyRemoved = 7, lastResetDate = ''Sun Nov 01 2026''\<rparr>"
  let ?st = "\<lparr>filterCounters = Some ?c\<rparr>"
  have c: "counters_inv ?c" by (simp add: counters_inv_def)
  have st: "storage_inv ?st" by (simp add: storage_inv_def counters_inv_def)
  have inc: "fst (incrementCounters ?f ?c ?st)
      = \<lparr>totalRemoved = 10, dailyRemoved = 8, lastResetDate = ''Sun Nov 01 2026''\<rparr>"
    by (simp add: incrementCounters_def Let_def)
  from counters_inv_preserved [OF c st, of ?f "''Mon Nov 02 2026''"] c st inc
  show ?thesis by simp
qed

subsection \<open>Account age\<close>

text \<open>
  C4. An account with a valid creation date is too young exactly when its age in
  milliseconds, divided by the milliseconds of a day and then by 30.44, is below
  \<open>minAccountAge\<close>; in whole milliseconds, when the age is below \<open>minAccountAge\<close> times
  2630016000. With \<open>minAccountAge\<close> 12, an account created 3 months ago is too young and
  one created 20 months ago is not; on the example page the post of the first is collapsed
  and counted, with a reason that gives the age and the threshold, and the post of the
  second is left as it is.
\<close>

theorem isAccountTooYoung_rule:
  "(isAccountTooYoung s now (ValidDate created) \<longleftrightarrow>
      (of_int (now - created) / 86400000 :: rat) / 30.44 < of_int (minAccountAge s))
   \<and> (isAccountTooYoung s now (ValidDate created) \<longleftrightarrow>
      now - created < minAccountAge s * 2630016000)
   \<and> isAccountTooYoung (s\<lparr>minAccountAge := 12\<rparr>) now (ValidDate (now - 3 * 2630016000))
   \<and> \<not> isAccountTooYoung (s\<lparr>minAccountAge := 12\<rparr>) now (ValidDate (now - 20 * 2630016000))
   \<and> (case parseAuthorFromElementCalcAge (exampleEnv ''2026-08-03T04:19:12.000Z'')
              [0, 0, 0] examplePost exampleWorld of
         (post, w, calls) \<Rightarrow>
            shouldRemove post
          \<and> removalReason post = ''account too young: carol (3.0 months old, minimum: 12)''
          \<and> hasBanner (resolve (page w) [0, 0])
          \<and> \<not> contains (page w) [0, 0, 0]
          \<and> totalRemoved (counters (filter_state w)) = 6)
   \<and> (case parseAuthorFromElementCalcAge (exampleEnv ''2025-03-03T16:48:00.000Z'')
              [0, 0, 0] examplePost exampleWorld of
         (post, w, calls) \<Rightarrow>
            \<not> shouldRemove post
          \<and> page w = examplePage
          \<and> counters (filter_state w) = counters exampleFilter)"
proof -
  have int_form: "isAccountTooYoung s' n (ValidDate c) \<longleftrightarrow> n - c < minAccountAge s' * 2630016000"
    for s' n c
  proof -
    have "ageInMonths n c < of_int (minAccountAge s')
        \<longleftrightarrow> (of_int (n - c) :: rat) < of_int (minAccountAge s' * 2630016000)"
      unfolding ageInMonths_def by (simp add: field_simps)
    also have "\<dots> \<longleftrightarrow> n - c < minAccountAge s' * 2630016000"
      by (rule of_int_less_iff)
    finally show ?thesis by (simp add: isAccountTooYoung_def)
  qed
  have days: "isAccountTooYoung s now (ValidDate created) \<longleftrightarrow>
      (of_int (now - created) / 86400000 :: rat) / 30.44 < of_int (minAccountAge s)"
  proof -
    have "(of_int (now - created) / 86400000 :: rat) / 30.44 = ageInMonths now created"
      unfolding ageInMonths_def by simp
    then show ?thesis by (simp add: isAccountTooYoung_def)
  qed
  have young: "(case parseAuthorFromElementCalcAge (exampleEnv ''2026-08-03T04:19:12.000Z'')
              [0, 0, 0] examplePost exampleWorld of
         (post, w, calls) \<Rightarrow>
            shouldRemove post
          \<and> removalReason post = ''account too young: carol (3.0 months old, minimum: 12)''
          \<and> hasBanner (resolve (page w) [0, 0])
          \<and> \<not> contains (page w) [0, 0, 0]
          \<and> totalRemoved (counters (filter_state w)) = 6)"
    by code_simp
  have old: "(case parseAuthorFromElementCalcAge (exampleEnv ''2025-03-03T16:48:00.000Z'')
              [0, 0, 0] examplePost exampleWorld of
         (post, w, calls) \<Rightarrow>
            \<not> shouldRemove post
          \<and> page w = examplePage
          \<and> counters (filter_state w) = counters exampleFilter)"
    by code_simp
  show ?thesis using days int_form [of s now created]
      int_form [of "s\<lparr>minAccountAge := 12\<rparr>" now "now - 3 * 2630016000"]
      int_form [of "s\<lparr>minAccountAge := 12\<rparr>" now "now - 20 * 2630016000"] young old
    by simp
qed

subsection \<open>The age cache\<close>

text \<open>
  C5, as the claim states it, fails: with an entry for \<open>carol\<close> that was fetched 61 minutes
  ago, a first resolution issues the external call; a second one that starts while the
  first is in flight returns \<open>null\<close> and makes no call.
\<close>

theorem fetchUserProfile_stale_in_flight_counterexample:
  "userAgeCache staleFilter ''carol''
     = Some \<lparr>createdAt = ValidDate 1741020480000, fetchedAt = 1793617140000\<rparr>
   \<and> (1793620800000 :: int) - 1793617140000 = 61 * 60 * 1000
   \<and> fst (fetchUserProfile_start 1793620800000 ''carol'' staleFilter) = Requested
   \<and> fst (fetchUserProfile_start 1793620800000 ''carol''
            (snd (fetchUserProfile_start 1793620800000 ''carol'' staleFilter)))
       = Returned None
   \<and> snd (snd (fetchUserProfile (exampleEnv ''2025-03-03T16:48:00.000Z'') ''carol''
            (snd (fetchUserProfile_start 1793620800000 ''carol'' staleFilter)))) = []"
  by (simp add: staleFilter_def exampleFilter_def exampleEnv_def fetchUserProfile_def
      fetchUserProfile_start_def cacheRead_def)

text \<open>
  C5, amended. When the cache holds an entry for the user name: if the entry was fetched
  less than an hour ago, resolution returns its \<open>createdAt\<close> at once, with no external call
  and no change of state; otherwise, if a lookup for the name is in flight, it returns
  \<open>null\<close> with no external call; otherwise it issues the external call.
\<close>

theorem fetchUserProfile_cache_first:
  assumes "userAgeCache F username = Some cached"
  shows "fetchUserProfile_start now username F =
           (if now - fetchedAt cached < 3600000 then (Returned (Some (createdAt cached)), F)
            else if username \<in> pendingRequests F then (Returned None, F)
            else (Requested, F\<lparr>pendingRequests := insert username (pendingRequests F)\<rparr>))
       \<and> snd (snd (fetchUserProfile env username F)) =
            (if clock env - fetchedAt cached < 3600000 \<or> username \<in> pendingRequests F then []
             else [username])"
  using assms
  by (simp add: fetchUserProfile_start_def fetchUserProfile_def cacheRead_def Let_def
      split: prod.splits)

theorem fetchUserProfile_cache_first_witness:
  "userAgeCache staleFilter ''carol''
     = Some \<lparr>createdAt = ValidDate 1741020480000, fetchedAt = 1793617140000\<rparr>
   \<and> fetchUserProfile_start (1793617140000 + 59 * 60 * 1000) ''carol'' staleFilter
       = (Returned (Some (ValidDate 1741020480000)), staleFilter)
   \<and> fst (fetchUserProfile_start (1793617140000 + 60 * 60 * 1000) ''carol'' staleFilter)
       = Requested
   \<and> snd (snd (fetchUserProfile (exampleEnv ''2025-03-03T16:48:00.000Z'') ''carol'' staleFilter))
       = [''carol'']"
proof -
  have e: "userAgeCache staleFilter ''carol''
     = Some \<lparr>createdAt = ValidDate 1741020480000, fetchedAt = 1793617140000\<rparr>"
    by (simp add: staleFilter_def)
  have p: "pendingRequests staleFilter = {}"
    by (simp add: staleFilter_def exampleFilter_def)
  have c: "clock (exampleEnv ''2025-03-03T16:48:00.000Z'') = 1793620800000"
    by (simp add: exampleEnv_def)
  from fetchUserProfile_cache_first [OF e, of "1793617140000 + 59 * 60 * 1000"
      "exampleEnv ''2025-03-03T16:48:00.000Z''"]
    fetchUserProfile_cache_first [OF e, of "1793617140000 + 60 * 60 * 1000"
      "exampleEnv ''2025-03-03T16:48:00.000Z''"] e p c
  show ?thesis by simp
qed

text \<open>
  A lookup that fails, or whose document has no cake-day element or no \<open>datetime\<close>
  attribute, returns \<open>null\<close> and leaves the cache as it is.
\<close>

lemma fetchUserProfile_finish_failure:
  assumes "resp = FetchRejected \<or> resp = BodyRejected \<or> (\<exists>n. resp = NotOk n)
           \<or> (\<exists>doc. resp = Html doc \<and> parseAccountCreationDate dp doc = None)"
  shows "fst (fetchUserProfile_finish dp now username resp F) = None
       \<and> userAgeCache (snd (fetchUserProfile_finish dp now username resp F)) = userAgeCache F"
  using assms by (auto simp: fetchUserProfile_finish_def)

text \<open>
  C6. The claim fails on a document whose cake-day element carries a \<open>datetime\<close> attribute
  that is not a date: the parse gives an Invalid Date, which is written to the cache before
  the log line throws; resolution returns \<open>null\<close>, and the cache has a new entry, which the
  next resolution within the hour returns without an external call.
\<close>

theorem fetchUserProfile_invalid_date_cached:
  "(case fetchUserProfile (exampleEnv ''not-a-date'') ''carol'' exampleFilter of
      (r, F, calls) \<Rightarrow>
         r = Inr None \<and> calls = [''carol'']
       \<and> userAgeCache F ''carol''
           = Some \<lparr>createdAt = InvalidDate, fetchedAt = 1793620800000\<rparr>
       \<and> userAgeCache exampleFilter ''carol'' = None
       \<and> fst (fetchUserProfile (exampleEnv ''2025-03-03T16:48:00.000Z'') ''carol'' F)
           = Inr (Some InvalidDate)
       \<and> snd (snd (fetchUserProfile (exampleEnv ''2025-03-03T16:48:00.000Z'') ''carol'' F))
           = [])"
  by code_simp

subsection \<open>Keyword patterns\<close>

lemma escaped_eq_syntax: "set escapedChars = set syntaxChars"
  by (auto simp: escapedChars_def syntaxChars_def)

lemma b_not_syntax: "CHR ''b'' \<notin> set syntaxChars"
  by (simp add: syntaxChars_def backslash_def)

lemma backslash_syntax: "backslash \<in> set syntaxChars"
  by (simp add: syntaxChars_def)

text \<open>Escaping works: the escaped keyword parses as the keyword, character by character.\<close>

lemma parsePattern_escape:
  "parsePattern (escapeRegExp s @ rest) = map_option ((@) (map Literal s)) (parsePattern rest)"
proof (induction s)
  case Nil
  show ?case by (simp add: escapeRegExp_def option.map_ident)
next
  case (Cons c s)
  have step: "escapeRegExp (c # s) @ rest
      = (if c \<in> set syntaxChars then [backslash, c] else [c]) @ (escapeRegExp s @ rest)"
    by (simp add: escapeRegExp_def escaped_eq_syntax)
  show ?case
  proof (cases "c \<in> set syntaxChars")
    case True
    then have "c \<noteq> CHR ''b''" using b_not_syntax by auto
    with True step Cons.IH show ?thesis
      by (simp add: option.map_comp comp_def)
  next
    case False
    then have "c \<noteq> backslash" using backslash_syntax by auto
    with False step Cons.IH show ?thesis
      by (simp add: option.map_comp comp_def)
  qed
qed

lemma parsePattern_patternSource:
  "parsePattern (patternSource keyword) = Some (keywordAtoms keyword)"
proof -
  have "parsePattern [backslash, CHR ''b''] = Some [WordBoundary]" by simp
  then have "parsePattern (escapeRegExp (toLowerCase keyword) @ [backslash, CHR ''b''])
      = Some (map Literal (toLowerCase keyword) @ [WordBoundary])"
    by (simp only: parsePattern_escape option.map)
  then show ?thesis by (simp add: patternSource_def keywordAtoms_def)
qed

lemma findMatchingKeyword_loop_find:
  "findMatchingKeyword_loop kws (toLowerCase text) = Inr (find (\<lambda>k. keywordMatches k text) kws)"
  by (induction kws) (simp_all add: parsePattern_patternSource keywordMatches_def)

text \<open>\<open>findMatchingKeyword\<close> never throws and returns the first keyword of the list whose
  pattern matches.\<close>

lemma findMatchingKeyword_find:
  "findMatchingKeyword s text = Inr (find (\<lambda>k. keywordMatches k text) (keywords_list s))"
  by (simp add: findMatchingKeyword_def findMatchingKeyword_loop_find)

text \<open>
  For a keyword that begins and ends with a word character, the pattern matches exactly
  when the keyword stands in the text as a standalone word, whatever the case of letters.
\<close>

lemma matchAtoms_literals:
  "matchAtoms (map Literal ks @ as) prev str \<longleftrightarrow>
     (\<exists>mid post. str = mid @ post \<and> map canonicalize mid = map canonicalize ks
        \<and> matchAtoms as (lastChar prev mid) post)"
proof (induction ks arbitrary: prev str)
  case Nil
  show ?case by (simp add: lastChar_def)
next
  case (Cons k ks)
  show ?case
  proof (cases str)
    case Nil
    then show ?thesis by simp
  next
    case (Cons d ds)
    have "(\<exists>mid post. d # ds = mid @ post \<and> map canonicalize mid = map canonicalize (k # ks)
            \<and> matchAtoms as (lastChar prev mid) post)
       \<longleftrightarrow> (canonicalize k = canonicalize d
            \<and> (\<exists>mid' post. ds = mid' @ post \<and> map canonicalize mid' = map canonicalize ks
                 \<and> matchAtoms as (lastChar (Some d) mid') post))"
      (is "?L \<longleftrightarrow> ?R")
    proof
      assume ?L
      then obtain mid post where m: "d # ds = mid @ post"
        "map canonicalize mid = map canonicalize (k # ks)"
        "matchAtoms as (lastChar prev mid) post" by blast
      from m(2) obtain m0 mid' where mid: "mid = m0 # mid'" by (cases mid) auto
      with m have "m0 = d" "ds = mid' @ post" "canonicalize k = canonicalize d"
        "map canonicalize mid' = map canonicalize ks" by auto
      moreover from m(3) mid \<open>m0 = d\<close> have "matchAtoms as (lastChar (Some d) mid') post"
        by (auto simp: lastChar_def split: if_splits)
      ultimately show ?R by blast
    next
      assume ?R
      then obtain mid' post where m: "canonicalize k = canonicalize d" "ds = mid' @ post"
        "map canonicalize mid' = map canonicalize ks"
        "matchAtoms as (lastChar (Some d) mid') post" by blast
      then have "d # ds = (d # mid') @ post"
        "map canonicalize (d # mid') = map canonicalize (k # ks)"
        "matchAtoms as (lastChar prev (d # mid')) post"
        by (auto simp: lastChar_def split: if_splits)
      then show ?L by blast
    qed
    with Cons Cons.IH [of "Some d" ds] show ?thesis by simp
  qed
qed

lemma searchFrom_split:
  "searchFrom as prev str \<longleftrightarrow>
     (\<exists>pre post. str = pre @ post \<and> matchAtoms as (lastChar prev pre) post)"
proof (induction str arbitrary: prev)
  case Nil
  show ?case by (simp add: lastChar_def)
next
  case (Cons d ds)
  have "(\<exists>pre post. d # ds = pre @ post \<and> matchAtoms as (lastChar prev pre) post)
     \<longleftrightarrow> (matchAtoms as prev (d # ds)
          \<or> (\<exists>pre' post. ds = pre' @ post \<and> matchAtoms as (lastChar (Some d) pre') post))"
    (is "?L \<longleftrightarrow> ?R")
  proof
    assume ?L
    then obtain pre post where p: "d # ds = pre @ post" "matchAtoms as (lastChar prev pre) post"
      by blast
    show ?R
    proof (cases pre)
      case Nil
      with p show ?thesis by (simp add: lastChar_def)
    next
      case (Cons p0 pre')
      with p have "ds = pre' @ post" "matchAtoms as (lastChar (Some d) pre') post"
        by (auto simp: lastChar_def)
      then show ?thesis by blast
    qed
  next
    assume ?R
    then show ?L
    proof
      assume "matchAtoms as prev (d # ds)"
      then have "d # ds = [] @ (d # ds) \<and> matchAtoms as (lastChar prev []) (d # ds)"
        by (simp add: lastChar_def)
      then show ?L by blast
    next
      assume "\<exists>pre' post. ds = pre' @ post \<and> matchAtoms as (lastChar (Some d) pre') post"
      then obtain pre' post where "ds = pre' @ post"
        "matchAtoms as (lastChar (Some d) pre') post" by blast
      then have "d # ds = (d # pre') @ post \<and> matchAtoms as (lastChar prev (d # pre')) post"
        by (auto simp: lastChar_def split: if_splits)
      then show ?L by blast
    qed
  qed
  with Cons.IH [of "Some d"] show ?case by simp
qed

lemma lowerChar_not_upper:
  "\<not> (65 \<le> (of_char (lowerChar c) :: nat) \<and> (of_char (lowerChar c) :: nat) \<le> 90)"
  by (auto simp: lowerChar_def Let_def)

lemma of_char_canonicalize:
  "(of_char (canonicalize c) :: nat) =
     (if 97 \<le> (of_char c :: nat) \<and> (of_char c :: nat) \<le> 122 then of_char c - 32 else of_char c)"
proof -
  have "(of_char c :: nat) - 32 < 256"
    using nat_of_char_less_256 [of c] by arith
  then show ?thesis by (simp add: canonicalize_def Let_def)
qed

lemma canonicalize_inj_lower:
  assumes "canonicalize (lowerChar a) = canonicalize (lowerChar b)"
  shows "lowerChar a = lowerChar b"
proof -
  define x where "x = lowerChar a"
  define y where "y = lowerChar b"
  define nx where "nx = (of_char x :: nat)"
  define ny where "ny = (of_char y :: nat)"
  have nx: "\<not> (65 \<le> nx \<and> nx \<le> 90)" and ny: "\<not> (65 \<le> ny \<and> ny \<le> 90)"
    using lowerChar_not_upper by (simp_all add: x_def y_def nx_def ny_def)
  from assms have "(of_char (canonicalize x) :: nat) = of_char (canonicalize y)"
    by (simp add: x_def y_def)
  then have "(if 97 \<le> nx \<and> nx \<le> 122 then nx - 32 else nx)
      = (if 97 \<le> ny \<and> ny \<le> 122 then ny - 32 else ny)"
    by (simp only: of_char_canonicalize nx_def ny_def)
  with nx ny have "nx = ny" by (auto split: if_splits)
  then have "x = y" unfolding nx_def ny_def by (rule of_char_eqI)
  then show ?thesis by (simp add: x_def y_def)
qed

lemma canonicalize_lower_eq:
  "map canonicalize mid = map canonicalize (toLowerCase k) \<Longrightarrow>
   set mid \<subseteq> range lowerChar \<Longrightarrow> mid = toLowerCase k"
proof (induction mid arbitrary: k)
  case Nil
  then show ?case by (simp add: toLowerCase_def)
next
  case (Cons m mid)
  then obtain k0 k' where k: "k = k0 # k'" by (cases k) (auto simp: toLowerCase_def)
  from Cons.prems(2) obtain a where a: "m = lowerChar a" by auto
  from Cons.prems(1) k a have "canonicalize (lowerChar a) = canonicalize (lowerChar k0)"
    by (simp add: toLowerCase_def)
  then have "m = lowerChar k0" using a canonicalize_inj_lower by simp
  moreover from Cons.prems k have "mid = toLowerCase k'"
    by (intro Cons.IH) (auto simp: toLowerCase_def)
  ultimately show ?case using k by (simp add: toLowerCase_def)
qed

lemma isWordChar_lower: "isWordChar (lowerChar c) = isWordChar c"
  by (auto simp: isWordChar_def lowerChar_def Let_def)

lemma keywordMatches_whole_word:
  assumes ne: "keyword \<noteq> []" and first: "isWordChar (hd keyword)"
    and final: "isWordChar (last keyword)"
  shows "keywordMatches keyword text \<longleftrightarrow> standaloneIn keyword text"
proof -
  let ?k = "toLowerCase keyword"
  let ?t = "toLowerCase text"
  have kne: "?k \<noteq> []" using ne by (simp add: toLowerCase_def)
  have khd: "isWordChar (hd ?k)" using ne first
    by (simp add: toLowerCase_def hd_map isWordChar_lower)
  have klast: "isWordChar (last ?k)" using ne final
    by (simp add: toLowerCase_def last_map isWordChar_lower)
  have "keywordMatches keyword text \<longleftrightarrow>
      (\<exists>pre rest. ?t = pre @ rest \<and> wordBefore (lastChar None pre) \<noteq> wordAfter rest
         \<and> (\<exists>mid post. rest = mid @ post \<and> map canonicalize mid = map canonicalize ?k
              \<and> wordBefore (lastChar (lastChar None pre) mid) \<noteq> wordAfter post))"
    unfolding keywordMatches_def keywordAtoms_def regexTest_def searchFrom_split
    using matchAtoms_literals [of ?k "[WordBoundary]"] by simp
  also have "\<dots> \<longleftrightarrow> standaloneIn keyword text"
  proof
    assume "\<exists>pre rest. ?t = pre @ rest \<and> wordBefore (lastChar None pre) \<noteq> wordAfter rest
         \<and> (\<exists>mid post. rest = mid @ post \<and> map canonicalize mid = map canonicalize ?k
              \<and> wordBefore (lastChar (lastChar None pre) mid) \<noteq> wordAfter post)"
    then obtain pre mid post where t: "?t = pre @ mid @ post"
      and b1: "wordBefore (lastChar None pre) \<noteq> wordAfter (mid @ post)"
      and m: "map canonicalize mid = map canonicalize ?k"
      and b2: "wordBefore (lastChar (lastChar None pre) mid) \<noteq> wordAfter post" by blast
    from t have "set mid \<subseteq> set ?t" by auto
    then have "set mid \<subseteq> range lowerChar" by (auto simp: toLowerCase_def)
    from canonicalize_lower_eq [OF m this] have mid: "mid = ?k" .
    with kne khd have "wordAfter (mid @ post)" by (cases ?k) (auto simp: wordAfter_def)
    with b1 have 1: "\<not> wordBefore (lastChar None pre)" by simp
    from mid kne klast have "wordBefore (lastChar (lastChar None pre) mid)"
      by (simp add: lastChar_def wordBefore_def)
    with b2 have 2: "\<not> wordAfter post" by simp
    from t mid 1 2 show "standaloneIn keyword text" unfolding standaloneIn_def by blast
  next
    assume "standaloneIn keyword text"
    then obtain pre post where t: "?t = pre @ ?k @ post"
      and 1: "\<not> wordBefore (lastChar None pre)" and 2: "\<not> wordAfter post"
      unfolding standaloneIn_def by blast
    from kne khd have "wordAfter (?k @ post)" by (cases ?k) (auto simp: wordAfter_def)
    moreover from kne klast have "wordBefore (lastChar (lastChar None pre) ?k)"
      by (simp add: lastChar_def wordBefore_def)
    ultimately show "\<exists>pre rest. ?t = pre @ rest \<and> wordBefore (lastChar None pre) \<noteq> wordAfter rest
         \<and> (\<exists>mid post. rest = mid @ post \<and> map canonicalize mid = map canonicalize ?k
              \<and> wordBefore (lastChar (lastChar None pre) mid) \<noteq> wordAfter post)"
      using t 1 2 by blast
  qed
  finally show ?thesis .
qed

text \<open>
  C1. The claim fails for a keyword that ends in a character that is not a word character:
  the text \<open>I love c++ today\<close> has the keyword \<open>c++\<close> as a standalone word, between two
  spaces, and no keyword is found; the same keyword is found in \<open>learn -c++x\<close>, where a
  letter follows it.
\<close>

theorem findMatchingKeyword_nonword_edge:
  "findMatchingKeyword (exampleSettings\<lparr>keywords_list := [''c++'']\<rparr>) ''I love c++ today''
     = Inr None
   \<and> standaloneIn ''c++'' ''I love c++ today''
   \<and> findMatchingKeyword (exampleSettings\<lparr>keywords_list := [''c++'']\<rparr>) ''learn -c++x''
     = Inr (Some ''c++'')"
proof -
  have 1: "findMatchingKeyword (exampleSettings\<lparr>keywords_list := [''c++'']\<rparr>)
      ''I love c++ today'' = Inr None"
    by code_simp
  have 2: "findMatchingKeyword (exampleSettings\<lparr>keywords_list := [''c++'']\<rparr>)
      ''learn -c++x'' = Inr (Some ''c++'')"
    by code_simp
  have "toLowerCase ''I love c++ today'' = ''i love '' @ toLowerCase ''c++'' @ '' today''
      \<and> \<not> wordBefore (lastChar None ''i love '') \<and> \<not> wordAfter '' today''"
    by code_simp
  then have 3: "standaloneIn ''c++'' ''I love c++ today''"
    unfolding standaloneIn_def by blast
  from 1 2 3 show ?thesis by simp
qed

subsection \<open>Classification\<close>

lemma recordKeywordMatch_find:
  "recordKeywordMatch (find (\<lambda>k. keywordMatches k t) (keywords_list s)) p =
     (case firstKeyword s (Some t) of
        None \<Rightarrow> p
      | Some k \<Rightarrow> p\<lparr>shouldRemove := True, matchedKeyword := k, removalReason := keywordReason k\<rparr>)"
  by (simp add: recordKeywordMatch_def firstKeyword_def keywordReason_def split: option.splits)

lemma convert_article:
  assumes "elTag (resolve doc ele) = ''ARTICLE''"
  shows "\<exists>post. convertElementToPost s doc ele = Inr post \<and> precedence_holds s doc ele post"
  using assms
  apply (simp add: convertElementToPost_def Let_def findMatchingKeyword_find
      recordKeywordMatch_find keywordText_def precedence_holds_def)
  apply (cases "firstKeyword s (Some (orEmpty (getAttribute (resolve doc ele) ''aria-label'')))")
   apply (simp_all add: Let_def split: option.splits)
  done

lemma convert_shreddit:
  assumes "elTag (resolve doc ele) = ''SHREDDIT-POST''"
  shows "\<exists>post. convertElementToPost s doc ele = Inr post \<and> precedence_holds s doc ele post"
proof (cases "closestArticle doc ele")
  case None
  with assms show ?thesis
    by (simp add: convertElementToPost_def Let_def keywordText_def precedence_holds_def
        firstKeyword_def)
next
  case (Some a)
  show ?thesis
  proof (cases "firstKeyword s (Some (orEmpty (getAttribute (resolve doc a) ''aria-label'')))")
    case None
    with Some assms show ?thesis
      by (simp add: convertElementToPost_def Let_def findMatchingKeyword_find
          recordKeywordMatch_find keywordText_def precedence_holds_def)
  next
    case (Some k)
    with \<open>closestArticle doc ele = Some a\<close> assms show ?thesis
      by (simp add: convertElementToPost_def Let_def findMatchingKeyword_find
          recordKeywordMatch_find keywordText_def precedence_holds_def)
  qed
qed

lemma convert_other:
  assumes "elTag (resolve doc ele) \<noteq> ''ARTICLE''" "elTag (resolve doc ele) \<noteq> ''SHREDDIT-POST''"
  shows "\<exists>post. convertElementToPost s doc ele = Inr post \<and> precedence_holds s doc ele post"
  using assms
  by (simp add: convertElementToPost_def Let_def keywordText_def precedence_holds_def
      firstKeyword_def split: option.splits)

lemma convert_precedence:
  "\<exists>post. convertElementToPost s doc ele = Inr post \<and> precedence_holds s doc ele post"
  using convert_article convert_shreddit convert_other by blast

text \<open>
  C2, as the claim states it, fails: on a page with an article about crypto whose post is
  in the blocked subreddit, the keyword \<open>crypto\<close> matches the label of the article, and the
  reason of the article is the blocked subreddit; for the post inside it the keywords are
  not tested and no keyword is recorded.
\<close>

theorem convertElementToPost_subreddit_overrides_counterexample:
  "findMatchingKeyword exampleSettings ''Crypto news'' = Inr (Some ''crypto'')
   \<and> convertElementToPost exampleSettings cryptoSpamPage [0]
     = Inr \<lparr>url = [], title = ''Crypto news'', tagName = ''ARTICLE'', subreddit = ''r/spam'',
            author = [], matchedKeyword = ''crypto'', shouldRemove = True,
            removalReason = ''blocked subreddit: r/spam''\<rparr>
   \<and> convertElementToPost exampleSettings cryptoSpamPage [0, 0]
     = Inr \<lparr>url = [], title = ''Crypto news'', tagName = ''SHREDDIT-POST'',
            subreddit = ''r/spam'', author = [], matchedKeyword = [], shouldRemove = True,
            removalReason = ''blocked subreddit: r/spam''\<rparr>"
  by code_simp

text \<open>The post carries the subreddit of the page, and a list without the empty keyword
  gives the first keyword that matches.\<close>

lemma recordKeywordMatch_subreddit:
  "subreddit (recordKeywordMatch m p) = subreddit p"
  by (simp add: recordKeywordMatch_def split: option.splits)

lemma convert_subreddit:
  assumes "convertElementToPost s doc ele = Inr post"
  shows "subreddit post = pageSubreddit doc ele"
proof (cases "elTag (resolve doc ele) = ''SHREDDIT-POST''")
  case True
  show ?thesis
  proof (cases "closestArticle doc ele")
    case None
    with True assms show ?thesis
      by (auto simp: convertElementToPost_def Let_def pageSubreddit_def split: if_splits)
  next
    case (Some a)
    with True assms show ?thesis
      by (auto simp: convertElementToPost_def Let_def pageSubreddit_def findMatchingKeyword_find
          recordKeywordMatch_subreddit split: if_splits)
  qed
next
  case False
  show ?thesis
  proof (cases "elTag (resolve doc ele) = ''ARTICLE''")
    case True
    with assms show ?thesis
      by (auto simp: convertElementToPost_def Let_def pageSubreddit_def findMatchingKeyword_find
          recordKeywordMatch_subreddit split: option.splits if_splits)
  next
    case notart: False
    with False assms show ?thesis
      by (auto simp: convertElementToPost_def Let_def pageSubreddit_def
          split: option.splits if_splits)
  qed
qed

lemma firstKeyword_nonempty:
  assumes "[] \<notin> set (keywords_list s)"
  shows "firstKeyword s (Some t) = find (\<lambda>k. keywordMatches k t) (keywords_list s)"
proof (cases "find (\<lambda>k. keywordMatches k t) (keywords_list s)")
  case None
  then show ?thesis by (simp add: firstKeyword_def)
next
  case (Some k)
  then have "k \<in> set (keywords_list s)" by (auto simp: find_Some_iff)
  with assms have "k \<noteq> []" by auto
  with Some show ?thesis by (simp add: firstKeyword_def)
qed

text \<open>
  C2, amended. For a rule set without the empty keyword, classification never throws and
  records the subreddit of the page. The post is to be removed exactly when that subreddit
  is not empty and is blocked, or some keyword of the list matches the keyword text of the
  element. When the subreddit is blocked, the reason is the blocked subreddit, whether or
  not a keyword matches. When it is not blocked and a keyword matches, the first keyword of
  the list that matches is the matched keyword and is named in the reason. For an article
  whose subreddit is blocked the matched keyword is still the first keyword that matches;
  for any other element whose subreddit is blocked it is empty.
\<close>

theorem convertElementToPost_precedence:
  assumes "[] \<notin> set (keywords_list s)"
  shows "\<exists>post. convertElementToPost s doc ele = Inr post
     \<and> subreddit post = pageSubreddit doc ele
     \<and> (let blocked = (pageSubreddit doc ele \<noteq> []
                        \<and> isBlockedSubreddit s (pageSubreddit doc ele));
            kw = (case keywordText doc ele of
                    None \<Rightarrow> None
                  | Some t \<Rightarrow> find (\<lambda>k. keywordMatches k t) (keywords_list s))
        in shouldRemove post =
             (blocked \<or> (\<exists>t k. keywordText doc ele = Some t \<and> k \<in> set (keywords_list s)
                             \<and> keywordMatches k t))
         \<and> removalReason post =
             (if blocked then ''blocked subreddit: '' @ pageSubreddit doc ele
              else case kw of
                     None \<Rightarrow> []
                   | Some k \<Rightarrow> ''keyword '' @ [doubleQuote] @ k @ [doubleQuote] @ '' matched'')
         \<and> matchedKeyword post =
             (if blocked \<and> elTag (resolve doc ele) \<noteq> ''ARTICLE'' then []
              else case kw of None \<Rightarrow> [] | Some k \<Rightarrow> k))"
proof -
  from convert_precedence [of s doc ele] obtain post
    where post: "convertElementToPost s doc ele = Inr post"
      and h: "precedence_holds s doc ele post" by blast
  have sub: "subreddit post = pageSubreddit doc ele" by (rule convert_subreddit [OF post])
  have kw: "firstKeyword s (keywordText doc ele)
      = (case keywordText doc ele of
           None \<Rightarrow> None
         | Some t \<Rightarrow> find (\<lambda>k. keywordMatches k t) (keywords_list s))"
    using firstKeyword_nonempty [OF assms]
    by (cases "keywordText doc ele") (simp_all add: firstKeyword_def)
  have ex: "((case keywordText doc ele of
           None \<Rightarrow> None
         | Some t \<Rightarrow> find (\<lambda>k. keywordMatches k t) (keywords_list s)) \<noteq> None)
      \<longleftrightarrow> (\<exists>t k. keywordText doc ele = Some t \<and> k \<in> set (keywords_list s)
                \<and> keywordMatches k t)"
    by (cases "keywordText doc ele") (auto simp: find_None_iff)
  from h have "shouldRemove post =
        ((pageSubreddit doc ele \<noteq> [] \<and> isBlockedSubreddit s (pageSubreddit doc ele))
         \<or> (\<exists>t k. keywordText doc ele = Some t \<and> k \<in> set (keywords_list s)
                \<and> keywordMatches k t))"
    unfolding precedence_holds_def Let_def sub kw ex by blast
  moreover from h have "removalReason post =
      (if pageSubreddit doc ele \<noteq> [] \<and> isBlockedSubreddit s (pageSubreddit doc ele)
       then ''blocked subreddit: '' @ pageSubreddit doc ele
       else case (case keywordText doc ele of
                    None \<Rightarrow> None
                  | Some t \<Rightarrow> find (\<lambda>k. keywordMatches k t) (keywords_list s)) of
              None \<Rightarrow> []
            | Some k \<Rightarrow> ''keyword '' @ [doubleQuote] @ k @ [doubleQuote] @ '' matched'')"
    unfolding precedence_holds_def Let_def sub kw keywordReason_def by blast
  moreover from h have "matchedKeyword post =
      (if (pageSubreddit doc ele \<noteq> [] \<and> isBlockedSubreddit s (pageSubreddit doc ele))
          \<and> elTag (resolve doc ele) \<noteq> ''ARTICLE'' then []
       else case (case keywordText doc ele of
                    None \<Rightarrow> None
                  | Some t \<Rightarrow> find (\<lambda>k. keywordMatches k t) (keywords_list s)) of
              None \<Rightarrow> [] | Some k \<Rightarrow> k)"
    unfolding precedence_holds_def Let_def sub kw by blast
  ultimately show ?thesis using post sub unfolding Let_def by blast
qed

theorem convertElementToPost_precedence_witness:
  "[] \<notin> set (keywords_list (exampleSettings\<lparr>keywords_list := [''dogs'', ''crypto'', ''news'']\<rparr>))
   \<and> (\<exists>post. convertElementToPost (exampleSettings\<lparr>keywords_list := [''dogs'', ''crypto'', ''news'']\<rparr>)
                cryptoNewsPage [0] = Inr post
        \<and> subreddit post = ''r/news''
        \<and> shouldRemove post
        \<and> matchedKeyword post = ''crypto''
        \<and> removalReason post = ''keyword '' @ [doubleQuote] @ ''crypto'' @ [doubleQuote] @ '' matched'')
   \<and> (\<exists>post. convertElementToPost (exampleSettings\<lparr>keywords_list := [''dogs'', ''crypto'', ''news'']\<rparr>)
                cryptoSpamPage [0] = Inr post
        \<and> subreddit post = ''r/spam''
        \<and> shouldRemove post
        \<and> matchedKeyword post = ''crypto''
        \<and> removalReason post = ''blocked subreddit: r/spam'')"
proof -
  let ?s = "exampleSettings\<lparr>keywords_list := [''dogs'', ''crypto'', ''news'']\<rparr>"
  have ne: "[] \<notin> set (keywords_list ?s)" by (simp add: exampleSettings_def)
  have n: "pageSubreddit cryptoNewsPage [0] = ''r/news''"
    "\<not> isBlockedSubreddit ?s ''r/news''"
    "keywordText cryptoNewsPage [0] = Some ''Crypto news''"
    "find (\<lambda>k. keywordMatches k ''Crypto news'') (keywords_list ?s) = Some ''crypto''"
    "elTag (resolve cryptoNewsPage [0]) = ''ARTICLE''"
    "keywordMatches ''crypto'' ''Crypto news''"
    by code_simp+
  have sp: "pageSubreddit cryptoSpamPage [0] = ''r/spam''"
    "isBlockedSubreddit ?s ''r/spam''"
    "keywordText cryptoSpamPage [0] = Some ''Crypto news''"
    "elTag (resolve cryptoSpamPage [0]) = ''ARTICLE''"
    by code_simp+
  from convertElementToPost_precedence [OF ne, of cryptoNewsPage "[0]"] n
  have 1: "\<exists>post. convertElementToPost ?s cryptoNewsPage [0] = Inr post
        \<and> subreddit post = ''r/news''
        \<and> shouldRemove post
        \<and> matchedKeyword post = ''crypto''
        \<and> removalReason post = ''keyword '' @ [doubleQuote] @ ''crypto'' @ [doubleQuote] @ '' matched''"
    by (auto simp: Let_def)
  from convertElementToPost_precedence [OF ne, of cryptoSpamPage "[0]"] sp n(4)
  have 2: "\<exists>post. convertElementToPost ?s cryptoSpamPage [0] = Inr post
        \<and> subreddit post = ''r/spam''
        \<and> shouldRemove post
        \<and> matchedKeyword post = ''crypto''
        \<and> removalReason post = ''blocked subreddit: r/spam''"
    by (auto simp: Let_def)
  from ne 1 2 show ?thesis by blast
qed

subsection \<open>The second pass\<close>

lemma pendingDelete_frame:
  "page (pendingDelete e w) = page w \<and> storage (pendingDelete e w) = storage w
   \<and> counters (filter_state (pendingDelete e w)) = counters (filter_state w)
   \<and> userAgeCache (filter_state (pendingDelete e w)) = userAgeCache (filter_state w)
   \<and> settings (filter_state (pendingDelete e w)) = settings (filter_state w)"
  by (simp add: pendingDelete_def)

lemma secondPassEntry_skip:
  "tagName post \<noteq> ''SHREDDIT-POST'' \<Longrightarrow>
   secondPassEntry env (element, post) (w, calls) = (pendingDelete element w, calls)"
  by (simp add: secondPassEntry_def parseAuthorFromElementCalcAge_def)

lemma fold_secondPassEntry_skip:
  "\<forall>entry \<in> set batch. tagName (snd entry) \<noteq> ''SHREDDIT-POST'' \<Longrightarrow>
   \<exists>w'. fold (secondPassEntry env) batch (w, calls) = (w', calls)
     \<and> page w' = page w \<and> storage w' = storage w
     \<and> counters (filter_state w') = counters (filter_state w)
     \<and> userAgeCache (filter_state w') = userAgeCache (filter_state w)"
proof (induction batch arbitrary: w)
  case Nil
  then show ?case by simp
next
  case (Cons entry batch)
  obtain element post where e: "entry = (element, post)" by (cases entry)
  with Cons.prems have t: "tagName post \<noteq> ''SHREDDIT-POST''" by simp
  from Cons.prems have "\<forall>entry \<in> set batch. tagName (snd entry) \<noteq> ''SHREDDIT-POST''" by simp
  from Cons.IH [OF this, of "pendingDelete element w"] secondPassEntry_skip [OF t, of env element w calls]
    pendingDelete_frame [of element w] e
  show ?case by auto
qed

text \<open>A tick of the second pass whose batch holds no \<open>shreddit-post\<close> entry looks nobody
  up and leaves the page, the store, the counters and the age cache as they are.\<close>

lemma removePostsSecondPass_other_tags:
  assumes "\<forall>entry \<in> set (take 5 (elementToPostMapProcessAsync (filter_state w))).
             tagName (snd entry) \<noteq> ''SHREDDIT-POST''"
  shows "snd (removePostsSecondPass env w) = []
       \<and> page (fst (removePostsSecondPass env w)) = page w
       \<and> storage (fst (removePostsSecondPass env w)) = storage w
       \<and> counters (filter_state (fst (removePostsSecondPass env w))) = counters (filter_state w)
       \<and> userAgeCache (filter_state (fst (removePostsSecondPass env w)))
           = userAgeCache (filter_state w)"
  using fold_secondPassEntry_skip [OF assms, of env w "[]"]
  by (auto simp: removePostsSecondPass_def)

text \<open>
  C10, as the claim states it, fails in its last part. After the first pass over the
  example page the pending map holds the article and the post inside it. A tick of the
  second pass deletes the entry of the article and then, for the entry of the post, finds
  the author too young and collapses the closest article: the article, whose own entry has
  the tag name \<open>ARTICLE\<close>, is collapsed with the account-age reason and counted.
\<close>

theorem secondPass_article_collapsed_counterexample:
  "fetchArticleOrShredditPostsOnPage examplePage = [[0, 0], [0, 0, 0]]
   \<and> convertElementToPost exampleSettings examplePage [0, 0] = Inr exampleArticlePost
   \<and> convertElementToPost exampleSettings examplePage [0, 0, 0] = Inr examplePost
   \<and> elementToPostMapProcessAsync (filter_state pendingWorld)
       = [([0, 0], exampleArticlePost), ([0, 0, 0], examplePost)]
   \<and> tagName exampleArticlePost = ''ARTICLE''
   \<and> page pendingWorld = examplePage
   \<and> hasBanner (resolve examplePage [0, 0]) = False
   \<and> node_at (page (fst (removePostsSecondPass (exampleEnv ''2026-08-03T04:19:12.000Z'')
                             pendingWorld))) [0, 0, 1, 0]
       = Some (Element ''SPAN'' []
                 ''Post filtered: account too young: carol (3.0 months old, minimum: 12)''
                 False [])
   \<and> hasBanner (resolve (page (fst (removePostsSecondPass
          (exampleEnv ''2026-08-03T04:19:12.000Z'') pendingWorld))) [0, 0])
   \<and> totalRemoved (counters (filter_state (fst (removePostsSecondPass
          (exampleEnv ''2026-08-03T04:19:12.000Z'') pendingWorld))))
       = totalRemoved (counters (filter_state pendingWorld)) + 1
   \<and> snd (removePostsSecondPass (exampleEnv ''2026-08-03T04:19:12.000Z'') pendingWorld)
       = [''carol'']"
  by code_simp

text \<open>
  C10, amended. For an entry of the pending map whose post has a tag name other than
  \<open>SHREDDIT-POST\<close>, \<open>parseAuthorFromElementCalcAge\<close> returns the post and the state as they
  are and looks nobody up, and the loop body of the second pass only deletes the entry:
  the page, the store, the counters and the age cache stay as they are.
\<close>

theorem secondPass_other_tag:
  assumes "tagName post \<noteq> ''SHREDDIT-POST''"
  shows "parseAuthorFromElementCalcAge env element post w = (post, w, [])
       \<and> secondPassEntry env (element, post) (w, calls) = (pendingDelete element w, calls)
       \<and> page (pendingDelete element w) = page w
       \<and> storage (pendingDelete element w) = storage w
       \<and> counters (filter_state (pendingDelete element w)) = counters (filter_state w)
       \<and> userAgeCache (filter_state (pendingDelete element w)) = userAgeCache (filter_state w)
       \<and> element \<notin> fst ` set (elementToPostMapProcessAsync
                                  (filter_state (pendingDelete element w)))"
proof -
  have p: "parseAuthorFromElementCalcAge env element post w = (post, w, [])"
    using assms by (simp add: parseAuthorFromElementCalcAge_def)
  have e: "secondPassEntry env (element, post) (w, calls) = (pendingDelete element w, calls)"
    by (simp add: secondPassEntry_def p)
  have d: "element \<notin> fst ` set (elementToPostMapProcessAsync
                                   (filter_state (pendingDelete element w)))"
    by (auto simp: pendingDelete_def mapDelete_def)
  show ?thesis using p e d by (simp add: pendingDelete_def)
qed

theorem secondPass_other_tag_witness:
  "tagName exampleArticlePost \<noteq> ''SHREDDIT-POST''
   \<and> secondPassEntry (exampleEnv ''2026-08-03T04:19:12.000Z'') ([0, 0], exampleArticlePost)
        (pendingWorld, []) = (pendingDelete [0, 0] pendingWorld, [])
   \<and> elementToPostMapProcessAsync (filter_state (pendingDelete [0, 0] pendingWorld))
       = [([0, 0, 0], examplePost)]
   \<and> page (pendingDelete [0, 0] pendingWorld) = examplePage"
proof -
  have t: "tagName exampleArticlePost \<noteq> ''SHREDDIT-POST''"
    by (simp add: exampleArticlePost_def)
  have m: "elementToPostMapProcessAsync (filter_state (pendingDelete [0, 0] pendingWorld))
       = [([0, 0, 0], examplePost)]"
    by (simp add: pendingDelete_def pendingWorld_def mapDelete_def)
  have pg: "page pendingWorld = examplePage"
    by (simp add: pendingWorld_def exampleWorld_def)
  from secondPass_other_tag [OF t, of "exampleEnv ''2026-08-03T04:19:12.000Z''" "[0, 0]"
      pendingWorld "[]"] t m pg
  show ?thesis by simp
qed

subsection \<open>Paths and updates of the page\<close>

lemma update_at_fields:
  "t \<noteq> [] \<Longrightarrow> elTag (update_at f e t) = elTag e \<and> attrs (update_at f e t) = attrs e
     \<and> detached (update_at f e t) = detached e
     \<and> length (kids (update_at f e t)) = length (kids e)"
  by (cases e; cases t) auto

text \<open>An update at \<open>t\<close> is not seen at a path that neither leads to \<open>t\<close> nor passes
  through it.\<close>

lemma node_at_update_incomparable:
  "\<not> prefix t q \<Longrightarrow> \<not> prefix q t \<Longrightarrow> node_at (update_at f e t) q = node_at e q"
proof (induction t arbitrary: e q)
  case Nil
  then show ?case by simp
next
  case (Cons i t)
  then obtain j q' where q: "q = j # q'" by (cases q) auto
  obtain tg a x d ks where e: "e = Element tg a x d ks" by (cases e)
  show ?case
  proof (cases "j = i")
    case True
    with Cons.prems q have "\<not> prefix t q'" "\<not> prefix q' t" by auto
    from Cons.IH [OF this] True q e show ?thesis by auto
  next
    case False
    with q e show ?thesis by auto
  qed
qed

lemma node_at_append:
  "node_at e (a @ b) = (case node_at e a of None \<Rightarrow> None | Some n \<Rightarrow> node_at n b)"
  by (induction a arbitrary: e) auto

lemma contains_append:
  "contains e (a @ b) \<longleftrightarrow> contains e a \<and> (\<exists>n. node_at e a = Some n \<and> contains n b)"
  by (induction a arbitrary: e) auto

lemma contains_node_at: "contains e p \<Longrightarrow> \<exists>n. node_at e p = Some n"
  by (induction p arbitrary: e) auto

lemma node_at_update_above:
  "node_at e q = Some n \<Longrightarrow> node_at (update_at f e (q @ r)) q = Some (update_at f n r)"
proof (induction q arbitrary: e)
  case Nil
  then show ?case by simp
next
  case (Cons i q)
  obtain tg a x d ks where e: "e = Element tg a x d ks" by (cases e)
  with Cons show ?case by (auto split: if_splits)
qed

lemma closest_contains_update:
  "\<not> prefix t p \<Longrightarrow>
     closestArticle (update_at f e t) p = closestArticle e p
   \<and> contains (update_at f e t) p = contains e p"
proof (induction p arbitrary: e t)
  case Nil
  then have "t \<noteq> []" by auto
  then show ?case using update_at_fields [of t f e] by (simp add: isArticle_def)
next
  case (Cons j p)
  then obtain i t' where t: "t = i # t'" by (cases t) auto
  obtain tg a x d ks where e: "e = Element tg a x d ks" by (cases e)
  show ?case
  proof (cases "j = i \<and> i < length ks")
    case True
    with Cons.prems t have np: "\<not> prefix t' p" by auto
    then have ne: "t' \<noteq> []" by auto
    from Cons.IH [OF np, of "ks ! i"] update_at_fields [OF ne, of f "ks ! i"] True t e
    show ?thesis by (auto simp: isArticle_def)
  next
    case False
    with t e show ?thesis by (auto simp: isArticle_def)
  qed
qed

lemma closestArticle_prefix:
  "closestArticle e p = Some a \<Longrightarrow> \<exists>r. p = a @ r \<and> contains (resolve e a) r \<and> node_at e a \<noteq> None"
proof (induction p arbitrary: e a)
  case Nil
  then show ?case by (auto simp: resolve_def split: if_splits)
next
  case (Cons i p)
  show ?case
  proof (cases "closestArticle (kids e ! i) p")
    case None
    with Cons.prems have "a = []" "contains e (i # p)" by (auto split: if_splits)
    then show ?thesis by (simp add: resolve_def)
  next
    case (Some q)
    with Cons.prems have a: "a = i # q" and i: "i < length (kids e)" by (auto split: if_splits)
    from Cons.IH [OF Some] obtain r where "p = q @ r" "contains (resolve (kids e ! i) q) r"
       "node_at (kids e ! i) q \<noteq> None" by blast
    with a i show ?thesis by (auto simp: resolve_def)
  qed
qed

lemma collapseTarget_prefix: "prefix (collapseTarget doc p) p"
  using closestArticle_prefix [of doc p]
  by (auto simp: collapseTarget_def split: option.splits)

lemma tokens_bannerClass: "tokens [] bannerClass = [bannerClass]"
  by code_simp

lemma isBanner_banner: "isBanner (banner reason)"
  by (simp add: isBanner_def banner_def getAttribute_def orEmpty_def tokens_bannerClass)

lemma descendants_kid:
  "i < length (kids e) \<Longrightarrow> \<not> detached (kids e ! i) \<Longrightarrow>
     kids e ! i \<in> set (descendants e) \<and> set (descendants (kids e ! i)) \<subseteq> set (descendants e)"
proof -
  assume i: "i < length (kids e)" and d: "\<not> detached (kids e ! i)"
  obtain tg a x dd ks where e: "e = Element tg a x dd ks" by (cases e)
  from i e have "ks ! i \<in> set ks" by simp
  with d e show ?thesis by (auto simp: nth_mem)
qed

lemma hasBanner_kid:
  "i < length (kids e) \<Longrightarrow> \<not> detached (kids e ! i) \<Longrightarrow> hasBanner (kids e ! i) \<Longrightarrow> hasBanner e"
  using descendants_kid [of i e] by (auto simp: hasBanner_def list_ex_iff)

lemma hasBanner_collapseElement: "hasBanner (collapseElement reason e)"
proof -
  obtain tg a x d ks where e: "e = Element tg a x d ks" by (cases e)
  have "banner reason \<in> set (descendants (collapseElement reason e))"
    by (simp add: e banner_def)
  then show ?thesis using isBanner_banner by (auto simp: hasBanner_def list_ex_iff)
qed

lemma detached_detach: "detached (detach e)"
  by (cases e) simp

lemma collapseElement_fields:
  "elTag (collapseElement r e) = elTag e \<and> detached (collapseElement r e) = detached e"
  by (cases e) simp

lemma update_detached:
  "detached (update_at (collapseElement r) e t) = detached e"
  using update_at_fields [of t "collapseElement r" e] collapseElement_fields [of r e]
  by (cases t) auto

lemma hasBanner_update:
  "contains e t \<Longrightarrow> hasBanner (update_at (collapseElement r) e t)"
proof (induction t arbitrary: e)
  case Nil
  show ?case by (simp add: hasBanner_collapseElement)
next
  case (Cons i t)
  obtain tg a x d ks where e: "e = Element tg a x d ks" by (cases e)
  from Cons.prems e have i: "i < length ks" and nd: "\<not> detached (ks ! i)"
    and c: "contains (ks ! i) t" by auto
  let ?k = "update_at (collapseElement r) (ks ! i) t"
  let ?e = "Element tg a x d (ks[i := ?k])"
  have "hasBanner ?k" using Cons.IH [OF c] .
  moreover have "\<not> detached ?k" using nd by (simp add: update_detached)
  moreover have "i < length (kids ?e)" "kids ?e ! i = ?k" using i by simp_all
  ultimately have "hasBanner ?e" using hasBanner_kid [of i ?e] by simp
  with e i show ?case by simp
qed

lemma hasBanner_above:
  assumes "contains doc (q @ r)"
  shows "hasBanner (resolve (update_at (collapseElement reason) doc (q @ r)) q)"
proof -
  from assms obtain n where n: "node_at doc q = Some n" and c: "contains n r"
    by (auto simp: contains_append)
  from node_at_update_above [OF n] hasBanner_update [OF c]
  show ?thesis by (simp add: resolve_def)
qed

lemma banner_nodes: "node_at (banner reason) p = Some m \<Longrightarrow> \<not> isCandidate m"
proof (cases p)
  case Nil
  assume "node_at (banner reason) p = Some m"
  with Nil show ?thesis
    by (auto simp: banner_def isCandidate_def isArticle_def isShredditPost_def)
next
  case (Cons i p')
  assume m: "node_at (banner reason) p = Some m"
  show ?thesis
  proof (cases p')
    case Nil
    with m Cons show ?thesis
      by (auto simp: banner_def isCandidate_def isArticle_def isShredditPost_def nth_Cons'
          split: if_splits)
  next
    case (Cons j p'')
    with m \<open>p = i # p'\<close> show ?thesis
      by (auto simp: banner_def nth_Cons' split: if_splits)
  qed
qed

lemma inside_collapsed:
  assumes n: "node_at doc t = Some n"
    and c: "contains (update_at (collapseElement reason) doc t) (t @ i # r)"
  shows "\<not> isCandidate (resolve (update_at (collapseElement reason) doc t) (t @ i # r))"
proof -
  let ?doc = "update_at (collapseElement reason) doc t"
  have nt: "node_at ?doc t = Some (collapseElement reason n)"
    using node_at_update_above [OF n, of "collapseElement reason" "[]"] by simp
  with c have c': "contains (collapseElement reason n) (i # r)"
    by (auto simp: contains_append)
  obtain tg a x d ks where e: "n = Element tg a x d ks" by (cases n)
  from c' e have "i < length ks + 1" by simp
  moreover from c' e have "\<not> i < length ks" by (auto simp: nth_append detached_detach)
  ultimately have i: "i = length ks" by simp
  with c' e have "contains (banner reason) r" by (simp add: nth_append)
  then obtain m where m: "node_at (banner reason) r = Some m"
    using contains_node_at by blast
  with nt e i have "node_at ?doc (t @ i # r) = Some m"
    by (simp add: node_at_append nth_append)
  with banner_nodes [OF m] show ?thesis by (simp add: resolve_def)
qed

text \<open>The paths that \<open>querySelectorAll\<close> walks are the references of the elements in
  the document.\<close>

lemma paths_contains:
  "(p \<in> set (elementPaths e) \<longleftrightarrow> contains e p)"
  "(q \<in> set (kidPaths i ks) \<longleftrightarrow>
      (\<exists>j p. q = (i + j) # p \<and> j < length ks \<and> \<not> detached (ks ! j) \<and> contains (ks ! j) p))"
proof (induction e and i ks arbitrary: p and q rule: elementPaths_kidPaths.induct)
  case (1 t a x d ks)
  show ?case
  proof (cases p)
    case Nil
    then show ?thesis by simp
  next
    case (Cons j p')
    with 1 [of p] show ?thesis by auto
  qed
next
  case (2 i)
  show ?case by simp
next
  case (3 i k ks)
  show ?case
  proof
    assume "q \<in> set (kidPaths i (k # ks))"
    then consider (hd) "\<not> detached k" "q \<in> (#) i ` set (elementPaths k)"
      | (tl) "q \<in> set (kidPaths (Suc i) ks)" by (auto split: if_splits)
    then show "\<exists>j p. q = (i + j) # p \<and> j < length (k # ks) \<and> \<not> detached ((k # ks) ! j)
        \<and> contains ((k # ks) ! j) p"
    proof cases
      case hd
      then obtain p where "q = i # p" "contains k p" using 3(1) by auto
      with hd(1) show ?thesis by (intro exI [of _ 0] exI [of _ p]) simp
    next
      case tl
      then obtain j p where "q = (Suc i + j) # p" "j < length ks" "\<not> detached (ks ! j)"
        "contains (ks ! j) p" using 3(2) by blast
      then show ?thesis by (intro exI [of _ "Suc j"] exI [of _ p]) simp
    qed
  next
    assume "\<exists>j p. q = (i + j) # p \<and> j < length (k # ks) \<and> \<not> detached ((k # ks) ! j)
        \<and> contains ((k # ks) ! j) p"
    then obtain j p where jp: "q = (i + j) # p" "j < length (k # ks)"
      "\<not> detached ((k # ks) ! j)" "contains ((k # ks) ! j) p" by blast
    show "q \<in> set (kidPaths i (k # ks))"
    proof (cases j)
      case 0
      with jp 3(1) show ?thesis by auto
    next
      case (Suc j')
      with jp have "q = (Suc i + j') # p" "j' < length ks" "\<not> detached (ks ! j')"
        "contains (ks ! j') p" by auto
      then have "q \<in> set (kidPaths (Suc i) ks)" using 3(2) by blast
      then show ?thesis by simp
    qed
  qed
qed

subsection \<open>The first pass\<close>

text \<open>Classification reads the element, its subtree, and the attributes of its closest
  article; it gives the same post on two pages that agree on these.\<close>

lemma convert_local:
  assumes "resolve doc' p = resolve doc p" and "closestArticle doc' p = closestArticle doc p"
    and "\<And>a. closestArticle doc p = Some a \<Longrightarrow> resolve doc' a = resolve doc a"
  shows "convertElementToPost s doc' p = convertElementToPost s doc p"
proof (cases "closestArticle doc p")
  case None
  show ?thesis
    unfolding convertElementToPost_def assms(1) assms(2) None option.case by (rule refl)
next
  case (Some a)
  show ?thesis
    unfolding convertElementToPost_def assms(1) assms(2) Some option.case assms(3) [OF Some]
    by (rule refl)
qed

text \<open>
  Collapsing for the head of the list keeps the invariant for the rest of the list: an
  element that is still on the page and is a candidate either has the collapsed element
  inside its own collapse target, which now holds the banner, or lies beside the collapsed
  element, where classification and collapse target are what they were.
\<close>

lemma handled_collapse:
  assumes J: "handled s doc (e # rest)" and c: "contains doc e"
  shows "handled s (update_at (collapseElement r) doc (collapseTarget doc e)) rest"
proof -
  let ?t = "collapseTarget doc e"
  let ?doc = "update_at (collapseElement r) doc ?t"
  obtain x where x: "e = ?t @ x" using collapseTarget_prefix [of doc e] by (auto simp: prefix_def)
  with c have ct: "contains doc ?t" by (metis contains_append)
  then obtain n where n: "node_at doc ?t = Some n" using contains_node_at by blast
  show ?thesis
    unfolding handled_def
  proof (intro allI impI)
    fix p
    assume a: "contains ?doc p \<and> isCandidate (resolve ?doc p) \<and> \<not> isExpanded ?doc p
        \<and> removes s ?doc p"
    let ?T = "collapseTarget ?doc p"
    have Tp: "prefix ?T p" by (rule collapseTarget_prefix)
    show "p \<in> set rest \<or> hasBanner (resolve ?doc ?T)"
    proof (cases "prefix ?T ?t")
      case True
      then obtain y where y: "?t = ?T @ y" by (auto simp: prefix_def)
      with ct have "contains doc (?T @ y)" by simp
      from hasBanner_above [OF this, of r] y show ?thesis by simp
    next
      case False
      have ntp: "\<not> prefix ?t p"
      proof
        assume "prefix ?t p"
        then obtain y where y: "p = ?t @ y" by (auto simp: prefix_def)
        show False
        proof (cases y)
          case Nil
          with y Tp False show False by simp
        next
          case (Cons i y')
          with y a have "contains ?doc (?t @ i # y')" by simp
          from inside_collapsed [OF n this] a y Cons show False by simp
        qed
      qed
      have npt: "\<not> prefix p ?t"
        using Tp False by (meson prefix_order.trans)
      have ntT: "\<not> prefix ?t ?T"
        using Tp ntp by (meson prefix_order.trans)
      from closest_contains_update [OF ntp, of "collapseElement r" doc]
      have cl: "closestArticle ?doc p = closestArticle doc p"
        and co: "contains ?doc p = contains doc p" by simp_all
      then have T: "?T = collapseTarget doc p" by (simp add: collapseTarget_def)
      have rp: "resolve ?doc p = resolve doc p"
        using node_at_update_incomparable [OF ntp npt] by (simp add: resolve_def)
      have rT: "resolve ?doc ?T = resolve doc ?T"
        using node_at_update_incomparable [OF ntT False] by (simp add: resolve_def)
      have conv: "convertElementToPost s ?doc p = convertElementToPost s doc p"
      proof (rule convert_local [OF rp cl])
        fix a' assume "closestArticle doc p = Some a'"
        then have "collapseTarget doc p = a'" by (simp add: collapseTarget_def)
        with rT T show "resolve ?doc a' = resolve doc a'" by simp
      qed
      have ex: "isExpanded ?doc p = isExpanded doc p"
        using rT T by (simp add: isExpanded_def)
      from a co rp conv ex
      have "contains doc p \<and> isCandidate (resolve doc p) \<and> \<not> isExpanded doc p \<and> removes s doc p"
        by (simp add: removes_def)
      with J have "p \<in> set (e # rest) \<or> hasBanner (resolve doc (collapseTarget doc p))"
        unfolding handled_def by blast
      moreover have "p \<noteq> e"
      proof
        assume "p = e"
        with T have "?T = ?t" by simp
        with False show False by simp
      qed
      ultimately show ?thesis using rT T by auto
    qed
  qed
qed

lemma incrementCountersW_frame:
  "page (incrementCountersW f w) = page w
   \<and> settings (filter_state (incrementCountersW f w)) = settings (filter_state w)"
  by (simp add: incrementCountersW_def Let_def split: prod.splits)

lemma pendingSet_frame:
  "page (pendingSet e post w) = page w \<and> storage (pendingSet e post w) = storage w
   \<and> settings (filter_state (pendingSet e post w)) = settings (filter_state w)
   \<and> counters (filter_state (pendingSet e post w)) = counters (filter_state w)"
  by (simp add: pendingSet_def)

lemma handled_tail:
  assumes "handled s doc (e # rest)"
    and "contains doc e \<Longrightarrow> isCandidate (resolve doc e) \<Longrightarrow> \<not> isExpanded doc e \<Longrightarrow>
         removes s doc e \<Longrightarrow> hasBanner (resolve doc (collapseTarget doc e))"
  shows "handled s doc rest"
  using assms unfolding handled_def by (metis set_ConsD)

text \<open>The outcomes of the loop body.\<close>

lemma firstPassElement_cases:
  obtains (skip) "isExpanded (page w) e" "firstPassElement f e w = Inr w"
  | (keep) post w' where "\<not> isExpanded (page w) e"
      "convertElementToPost (settings (filter_state w)) (page w) e = Inr post"
      "\<not> shouldRemove post" "firstPassElement f e w = Inr w'" "page w' = page w"
      "storage w' = storage w" "settings (filter_state w') = settings (filter_state w)"
      "counters (filter_state w') = counters (filter_state w)"
  | (noop) post where "\<not> isExpanded (page w) e"
      "convertElementToPost (settings (filter_state w)) (page w) e = Inr post"
      "shouldRemove post"
      "\<not> contains (page w) e \<or> hasBanner (resolve (page w) (collapseTarget (page w) e))"
      "firstPassElement f e w = Inr w"
  | (collapse) post where "\<not> isExpanded (page w) e"
      "convertElementToPost (settings (filter_state w)) (page w) e = Inr post"
      "shouldRemove post" "contains (page w) e"
      "\<not> hasBanner (resolve (page w) (collapseTarget (page w) e))"
      "firstPassElement f e w = Inr (incrementCountersW f (w\<lparr>page :=
          update_at (collapseElement (removalReason post)) (page w)
            (collapseTarget (page w) e)\<rparr>))"
proof (cases "isExpanded (page w) e")
  case True
  then have "firstPassElement f e w = Inr w" by (simp add: firstPassElement_def)
  with True show ?thesis by (rule skip)
next
  case False
  obtain post where post: "convertElementToPost (settings (filter_state w)) (page w) e = Inr post"
    using convert_precedence by blast
  show ?thesis
  proof (cases "shouldRemove post")
    case nr: False
    show ?thesis
    proof (cases "accountAgeFilterEnabled (settings (filter_state w))")
      case True
      with False post nr have "firstPassElement f e w = Inr (pendingSet e post w)"
        by (simp add: firstPassElement_def)
      with False post nr pendingSet_frame [of e post w] show ?thesis
        by (intro keep [of post "pendingSet e post w"]) simp_all
    next
      case off: False
      with False post nr have "firstPassElement f e w = Inr w"
        by (simp add: firstPassElement_def)
      with False post nr show ?thesis by (intro keep [of post w]) simp_all
    qed
  next
    case True
    show ?thesis
    proof (cases "contains (page w) e
        \<and> \<not> hasBanner (resolve (page w) (collapseTarget (page w) e))")
      case c: True
      with False post True have "firstPassElement f e w = Inr (incrementCountersW f (w\<lparr>page :=
          update_at (collapseElement (removalReason post)) (page w)
            (collapseTarget (page w) e)\<rparr>))"
        by (simp add: firstPassElement_def collapsePost_def Let_def)
      with False post True c show ?thesis by (intro collapse [of post]) simp_all
    next
      case nc: False
      with False post True have "firstPassElement f e w = Inr w"
        by (auto simp: firstPassElement_def collapsePost_def Let_def)
      with False post True nc show ?thesis by (intro noop [of post]) auto
    qed
  qed
qed

lemma firstPassElement_handled:
  assumes J: "handled (settings (filter_state w)) (page w) (e # rest)"
    and step: "firstPassElement f e w = Inr w'"
  shows "handled (settings (filter_state w')) (page w') rest
       \<and> settings (filter_state w') = settings (filter_state w)"
proof (cases rule: firstPassElement_cases [of w e f])
  case skip
  with step have "w' = w" by simp
  moreover from J skip(1) have "handled (settings (filter_state w)) (page w) rest"
    by (intro handled_tail [OF J]) simp
  ultimately show ?thesis by simp
next
  case (keep post w'')
  with step have w': "w' = w''" by simp
  have "handled (settings (filter_state w)) (page w) rest"
  proof (rule handled_tail [OF J])
    assume "removes (settings (filter_state w)) (page w) e"
    with keep(2,3) show "hasBanner (resolve (page w) (collapseTarget (page w) e))"
      by (simp add: removes_def)
  qed
  with keep w' show ?thesis by simp
next
  case (noop post)
  with step have "w' = w" by simp
  moreover have "handled (settings (filter_state w)) (page w) rest"
    using noop(4) by (intro handled_tail [OF J]) auto
  ultimately show ?thesis by simp
next
  case (collapse post)
  with step have w': "w' = incrementCountersW f (w\<lparr>page :=
          update_at (collapseElement (removalReason post)) (page w)
            (collapseTarget (page w) e)\<rparr>)" by simp
  from handled_collapse [OF J collapse(4), of "removalReason post"] w'
    incrementCountersW_frame [of f "w\<lparr>page :=
          update_at (collapseElement (removalReason post)) (page w)
            (collapseTarget (page w) e)\<rparr>"]
  show ?thesis by simp
qed

lemma forEach_handled:
  "handled (settings (filter_state w)) (page w) todo \<Longrightarrow>
   \<exists>w'. forEach (firstPassElement f) todo w = Inr w'
     \<and> handled (settings (filter_state w')) (page w') []
     \<and> settings (filter_state w') = settings (filter_state w)"
proof (induction todo arbitrary: w)
  case Nil
  then show ?case by simp
next
  case (Cons e rest)
  obtain w1 where w1: "firstPassElement f e w = Inr w1"
    by (cases rule: firstPassElement_cases [of w e f]) auto
  from firstPassElement_handled [OF Cons.prems w1]
  have h: "handled (settings (filter_state w1)) (page w1) rest"
    and s: "settings (filter_state w1) = settings (filter_state w)" by blast+
  from Cons.IH [OF h] s w1 show ?case by auto
qed

lemma handled_initial:
  "handled s doc (fetchArticleOrShredditPostsOnPage doc)"
  by (simp add: handled_def fetchArticleOrShredditPostsOnPage_def paths_contains(1))

lemma firstPassElement_stable:
  assumes J: "handled (settings (filter_state w)) (page w) []"
    and c: "contains (page w) e" "isCandidate (resolve (page w) e)"
  shows "\<exists>w'. firstPassElement f e w = Inr w' \<and> page w' = page w \<and> storage w' = storage w
       \<and> counters (filter_state w') = counters (filter_state w)
       \<and> settings (filter_state w') = settings (filter_state w)"
proof (cases rule: firstPassElement_cases [of w e f])
  case skip
  then show ?thesis by simp
next
  case (keep post w')
  then show ?thesis by simp
next
  case (noop post)
  then show ?thesis by simp
next
  case (collapse post)
  then have "removes (settings (filter_state w)) (page w) e" by (auto simp: removes_def)
  with J c collapse(1) have "hasBanner (resolve (page w) (collapseTarget (page w) e))"
    unfolding handled_def by auto
  with collapse(5) show ?thesis by simp
qed

text \<open>Once every removable candidate has its banner, a pass changes nothing but the
  pending map.\<close>

lemma forEach_stable:
  "handled (settings (filter_state w)) (page w) [] \<Longrightarrow>
   \<forall>e \<in> set ps. contains (page w) e \<and> isCandidate (resolve (page w) e) \<Longrightarrow>
   \<exists>w'. forEach (firstPassElement f) ps w = Inr w' \<and> page w' = page w \<and> storage w' = storage w
     \<and> counters (filter_state w') = counters (filter_state w)"
proof (induction ps arbitrary: w)
  case Nil
  then show ?case by simp
next
  case (Cons e rest)
  from Cons.prems have c: "contains (page w) e" "isCandidate (resolve (page w) e)" by simp_all
  from firstPassElement_stable [OF Cons.prems(1) c, where f = f]
  obtain w1 where w1: "firstPassElement f e w = Inr w1" "page w1 = page w"
    "storage w1 = storage w" "counters (filter_state w1) = counters (filter_state w)"
    "settings (filter_state w1) = settings (filter_state w)" by blast
  with Cons.prems have "handled (settings (filter_state w1)) (page w1) []"
    "\<forall>e \<in> set rest. contains (page w1) e \<and> isCandidate (resolve (page w1) e)" by simp_all
  from Cons.IH [OF this] w1 show ?case by auto
qed

lemma collapsePost_eq:
  "collapsePost doc ele reason =
     (if contains doc ele \<and> \<not> hasBanner (resolve doc (collapseTarget doc ele))
      then (True, update_at (collapseElement reason) doc (collapseTarget doc ele))
      else (False, doc))"
  by (simp add: collapsePost_def Let_def)

lemma descendants_below:
  "contains a r \<Longrightarrow> node_at a r = Some n \<Longrightarrow> set (descendants n) \<subseteq> set (descendants a)"
proof (induction r arbitrary: a)
  case Nil
  then show ?case by simp
next
  case (Cons i r)
  then have "set (descendants n) \<subseteq> set (descendants (kids a ! i))" by (auto split: if_splits)
  moreover from Cons.prems have "set (descendants (kids a ! i)) \<subseteq> set (descendants a)"
    using descendants_kid [of i a] by auto
  ultimately show ?case by blast
qed

lemma hasBanner_target:
  assumes "hasBanner (resolve doc ele)"
  shows "hasBanner (resolve doc (collapseTarget doc ele))"
proof (cases "closestArticle doc ele")
  case None
  with assms show ?thesis by (simp add: collapseTarget_def)
next
  case (Some a)
  from closestArticle_prefix [OF Some] obtain r where r: "ele = a @ r"
    "contains (resolve doc a) r" "node_at doc a \<noteq> None" by blast
  show ?thesis
  proof (cases "node_at doc ele")
    case None
    with assms show ?thesis by (simp add: resolve_def hasBanner_def)
  next
    case (Some n)
    with r have "node_at (resolve doc a) r = Some n"
      by (auto simp: node_at_append resolve_def)
    from descendants_below [OF r(2) this] assms Some \<open>closestArticle doc ele = Some a\<close>
    show ?thesis by (auto simp: hasBanner_def list_ex_iff resolve_def collapseTarget_def)
  qed
qed

text \<open>
  C7. \<open>collapsePost\<close> returns \<open>false\<close> and leaves the page as it is when the element is not
  in the document, or when a banner is inside the element or inside the element that would
  be collapsed for it. And the first pass always ends, and a second pass that starts in
  the state the first one left changes neither the page nor the counters nor the store:
  nothing is collapsed and nothing is counted a second time.
\<close>

theorem collapse_idempotent:
  "(\<not> contains doc ele \<or> hasBanner (resolve doc ele)
      \<or> hasBanner (resolve doc (collapseTarget doc ele))
      \<longrightarrow> collapsePost doc ele reason = (False, doc))
   \<and> (\<exists>w1 w2. removePostsFirstPass f w = Inr w1 \<and> removePostsFirstPass f' w1 = Inr w2
        \<and> page w2 = page w1 \<and> storage w2 = storage w1
        \<and> counters (filter_state w2) = counters (filter_state w1))"
proof
  show "\<not> contains doc ele \<or> hasBanner (resolve doc ele)
      \<or> hasBanner (resolve doc (collapseTarget doc ele))
      \<longrightarrow> collapsePost doc ele reason = (False, doc)"
    using hasBanner_target [of doc ele] by (auto simp: collapsePost_eq)
next
  from forEach_handled [OF handled_initial, where w = w and f = f]
  obtain w1 where w1: "removePostsFirstPass f w = Inr w1"
    and h: "handled (settings (filter_state w1)) (page w1) []"
    by (auto simp: removePostsFirstPass_def)
  have "\<forall>e \<in> set (fetchArticleOrShredditPostsOnPage (page w1)).
      contains (page w1) e \<and> isCandidate (resolve (page w1) e)"
    by (simp add: fetchArticleOrShredditPostsOnPage_def paths_contains(1))
  from forEach_stable [OF h this, where f = f'] w1
  show "\<exists>w1 w2. removePostsFirstPass f w = Inr w1 \<and> removePostsFirstPass f' w1 = Inr w2
        \<and> page w2 = page w1 \<and> storage w2 = storage w1
        \<and> counters (filter_state w2) = counters (filter_state w1)"
    by (auto simp: removePostsFirstPass_def)
qed

theorem collapse_idempotent_witness:
  "hasBanner (resolve (update_at (collapseElement ''blocked subreddit: r/spam'')
                         cryptoSpamPage [0]) [0])
   \<and> collapsePost (update_at (collapseElement ''blocked subreddit: r/spam'') cryptoSpamPage [0])
        [0] ''blocked subreddit: r/spam''
       = (False, update_at (collapseElement ''blocked subreddit: r/spam'') cryptoSpamPage [0])
   \<and> (\<exists>w1 w2. removePostsFirstPass noFaults cryptoSpamWorld = Inr w1
        \<and> removePostsFirstPass noFaults w1 = Inr w2
        \<and> page w1 = update_at (collapseElement ''blocked subreddit: r/spam'') cryptoSpamPage [0]
        \<and> totalRemoved (counters (filter_state w1))
            = totalRemoved (counters (filter_state cryptoSpamWorld)) + 1
        \<and> page w2 = page w1
        \<and> counters (filter_state w2) = counters (filter_state w1))"
proof -
  let ?doc = "update_at (collapseElement ''blocked subreddit: r/spam'') cryptoSpamPage [0]"
  have b: "hasBanner (resolve ?doc [0])" by code_simp
  have first: "(case removePostsFirstPass noFaults cryptoSpamWorld of
      Inl err \<Rightarrow> False
    | Inr w1 \<Rightarrow> page w1 = ?doc
        \<and> totalRemoved (counters (filter_state w1))
            = totalRemoved (counters (filter_state cryptoSpamWorld)) + 1)"
    by code_simp
  from collapse_idempotent [of ?doc "[0]" "''blocked subreddit: r/spam''" noFaults
      cryptoSpamWorld noFaults] b first
  show ?thesis by (auto split: sum.splits)
qed

end
